theory Spec2Isabelle
  imports Main
begin

section \<open>The HTTPS bridge of \<open>src/electron/httpServer.ts\<close>\<close>

text \<open>
  The module keeps two pieces of state, \<open>requestIdCounter\<close> and the map
  \<open>pendingRequests\<close>, and installs four handlers: the \<open>OPTIONS\<close> route, the manifest
  route, the \<open>ipc-message\<close> listener and the catch-all route that forwards a request to
  the renderer and waits for its answer. The theory models the handlers as functions on
  an explicit state and the event loop as a step function on events.

  Conventions of the model:
  \<^item> JavaScript numbers that hold identifiers, status codes and times are natural
    numbers. The increment of \<open>requestIdCounter\<close> is exact for every value below
    \<open>2^53\<close>, which is the range the model covers.
  \<^item> Time is a logical clock in milliseconds; a \<open>setTimeout\<close> callback can run only
    once its delay has elapsed.
  \<^item> The continuation of an \<open>await\<close> runs in the same step as the call that settles
    the promise: no other handler runs between a settlement and its microtask.
  \<^item> A response event has the fields of its interface, and its status is one that
    \<open>res.status\<close> and \<open>res.send\<close> accept.
  \<^item> The middleware of lines 29--39 is not part of the model: a handler is given the
    parsed body and the header table of the response as it finds them.
\<close>

subsection \<open>JavaScript values and \<open>JSON.stringify\<close>\<close>

text \<open>
  Values a parsed request body can hold. Numbers are restricted to integers (printed in
  decimal, as JavaScript prints integers of magnitude below \<open>10^21\<close>); strings hold
  characters below 256.
\<close>

datatype jsval =
    JNull
  | JBool bool
  | JNumber int
  | JString string
  | JArray "jsval list"
  | JObject "(string \<times> jsval) list"

fun digits :: "nat \<Rightarrow> string" where
  "digits n =
     (if n < 10 then [''0123456789'' ! n]
      else digits (n div 10) @ [''0123456789'' ! (n mod 10)])"

declare digits.simps [simp del]

definition number_to_string :: "int \<Rightarrow> string" where
  "number_to_string i = (if i < 0 then ''-'' @ digits (nat (- i)) else digits (nat i))"

definition hex4 :: "nat \<Rightarrow> string" where
  "hex4 n =
     [''0123456789abcdef'' ! ((n div 4096) mod 16), ''0123456789abcdef'' ! ((n div 256) mod 16),
      ''0123456789abcdef'' ! ((n div 16) mod 16), ''0123456789abcdef'' ! (n mod 16)]"

text \<open>\<open>QuoteJSONString\<close>: the two-character escapes, \<open>\uXXXX\<close> for the other control
  characters, every other character as it is.\<close>

definition quote_char :: "char \<Rightarrow> string" where
  "quote_char c =
     (if c = CHR 0x08 then [CHR 0x5C, CHR ''b'']
      else if c = CHR 0x09 then [CHR 0x5C, CHR ''t'']
      else if c = CHR 0x0A then [CHR 0x5C, CHR ''n'']
      else if c = CHR 0x0C then [CHR 0x5C, CHR ''f'']
      else if c = CHR 0x0D then [CHR 0x5C, CHR ''r'']
      else if c = CHR 0x22 then [CHR 0x5C, CHR 0x22]
      else if c = CHR 0x5C then [CHR 0x5C, CHR 0x5C]
      else if (of_char c :: nat) < 32 then [CHR 0x5C, CHR ''u''] @ hex4 (of_char c)
      else [c])"

definition quote_json_string :: "string \<Rightarrow> string" where
  "quote_json_string s = [CHR 0x22] @ concat (map quote_char s) @ [CHR 0x22]"

fun join_comma :: "string list \<Rightarrow> string" where
  "join_comma [] = []"
| "join_comma [x] = x"
| "join_comma (x # y # ys) = x @ '','' @ join_comma (y # ys)"

fun JSON_stringify :: "jsval \<Rightarrow> string" where
  "JSON_stringify JNull = ''null''"
| "JSON_stringify (JBool b) = (if b then ''true'' else ''false'')"
| "JSON_stringify (JNumber i) = number_to_string i"
| "JSON_stringify (JString s) = quote_json_string s"
| "JSON_stringify (JArray xs) = ''['' @ join_comma (map JSON_stringify xs) @ '']''"
| "JSON_stringify (JObject kvs) =
     ''{'' @ join_comma (map (\<lambda>(k, v). quote_json_string k @ '':'' @ JSON_stringify v) kvs) @ ''}''"

text \<open>Truthiness, for a value that is not a string (the only use in the source).\<close>

fun truthy :: "jsval \<Rightarrow> bool" where
  "truthy JNull = False"
| "truthy (JBool b) = b"
| "truthy (JNumber i) = (i \<noteq> 0)"
| "truthy (JString s) = (s \<noteq> [])"
| "truthy (JArray xs) = True"
| "truthy (JObject kvs) = True"

subsection \<open>Events exchanged with the renderer\<close>

text \<open>
  The two interfaces of lines 8--20. Both have a field \<open>request_id\<close> and a field
  \<open>body\<close>; those of \<open>HttpResponseEvent\<close> carry the prefix \<open>r_\<close> here. The
  field \<open>method\<close> of \<open>HttpRequestEvent\<close> is \<open>http_method\<close>, since \<open>method\<close> is a
  keyword of Isabelle.
\<close>

record HttpRequestEvent =
  http_method :: string
  path :: string
  headers :: "(string \<times> string) list"
  body :: string
  request_id :: nat

record HttpResponseEvent =
  r_request_id :: nat
  status :: nat
  r_body :: string

subsection \<open>The request as Express hands it to the handler\<close>

text \<open>
  A value of \<open>req.headers\<close> is a string, an array of strings (Node builds one for
  \<open>set-cookie\<close> only, never empty) or \<open>undefined\<close>. \<open>req.body\<close> is \<open>undefined\<close>
  (\<open>None\<close>) or a value.
\<close>

datatype header_value = HString string | HArray string "string list" | HUndefined

record http_request =
  req_method :: string
  req_path :: string
  req_headers :: "(string \<times> header_value) list"
  req_body :: "jsval option"

text \<open>Lines 99--106: a string is kept, an array gives its first element, anything else
  gives no entry.\<close>

fun convert_headers :: "(string \<times> header_value) list \<Rightarrow> (string \<times> string) list" where
  "convert_headers [] = []"
| "convert_headers ((key, HString v) # rest) = (key, v) # convert_headers rest"
| "convert_headers ((key, HArray v vs) # rest) = (key, v) # convert_headers rest"
| "convert_headers ((key, HUndefined) # rest) = convert_headers rest"

text \<open>Lines 109--114.\<close>

fun body_string :: "jsval option \<Rightarrow> string" where
  "body_string (Some (JString s)) = s"
| "body_string (Some v) = (if truthy v then JSON_stringify v else '''')"
| "body_string None = ''''"

text \<open>Lines 116--122.\<close>

definition requestEvent :: "http_request \<Rightarrow> nat \<Rightarrow> HttpRequestEvent" where
  "requestEvent req rid =
     \<lparr>http_method = req_method req, path = req_path req,
      headers = convert_headers (req_headers req),
      body = body_string (req_body req), request_id = rid\<rparr>"

subsection \<open>Responses and their headers\<close>

text \<open>
  A response header table maps a name to its value; \<open>res.header\<close> sets one entry. The
  table a handler starts from holds whatever the middleware of lines 29--39 has set
  already; it is an argument of every handler.
\<close>

type_synonym header_table = "string \<rightharpoonup> string"

record http_reply =
  reply_status :: nat
  reply_headers :: header_table
  reply_body :: string

definition res_header :: "string \<Rightarrow> string \<Rightarrow> header_table \<Rightarrow> header_table" where
  "res_header name v hs = hs(name \<mapsto> v)"

text \<open>The five calls of lines 43--47, 144--148 and 152--156.\<close>

definition cors_headers :: "header_table \<Rightarrow> header_table" where
  "cors_headers hs =
     res_header ''Access-Control-Allow-Private-Network'' ''true''
      (res_header ''Access-Control-Expose-Headers'' ''*''
        (res_header ''Access-Control-Allow-Methods'' ''*''
          (res_header ''Access-Control-Allow-Headers'' ''*''
            (res_header ''Access-Control-Allow-Origin'' ''*'' hs))))"

text \<open>Lines 42--49; \<open>res.sendStatus(200)\<close> sends the body \<open>OK\<close>.\<close>

definition options_handler :: "header_table \<Rightarrow> http_reply" where
  "options_handler hs =
     \<lparr>reply_status = 200, reply_headers = cors_headers hs, reply_body = ''OK''\<rparr>"

text \<open>Lines 52--79: the manifest is a constant.\<close>

definition manifest :: jsval where
  "manifest = JObject
     [(''short_name'', JString ''BSV Desktop''),
      (''name'', JString ''BSV Desktop''),
      (''icons'', JArray [JObject
         [(''src'', JString ''favicon.ico''),
          (''sizes'', JString ''64x64 32x32 24x24 16x16''),
          (''type'', JString ''image/x-icon'')]]),
      (''start_url'', JString ''.''),
      (''display'', JString ''standalone''),
      (''theme_color'', JString ''#000000''),
      (''background_color'', JString ''#ffffff''),
      (''babbage'', JObject [(''trust'', JObject
         [(''name'', JString ''BSV Desktop''),
          (''note'', JString ''Allows basic payments between counterparties''),
          (''icon'', JString ''https://localhost:2121/favicon.ico''),
          (''publicKey'',
           JString ''0279be667ef9dcbbac55a06295ce870b07029bfcdb2dce28d959f2815b16f81798'')])])]"

definition manifest_handler :: "header_table \<Rightarrow> http_reply" where
  "manifest_handler hs =
     \<lparr>reply_status = 200,
      reply_headers =
        res_header ''Content-Type'' ''application/json''
          (res_header ''Access-Control-Allow-Origin'' ''*'' hs),
      reply_body = JSON_stringify manifest\<rparr>"

text \<open>Lines 144--149: the answer of the renderer, written back.\<close>

definition success_reply :: "header_table \<Rightarrow> HttpResponseEvent \<Rightarrow> http_reply" where
  "success_reply hs httpResponse =
     \<lparr>reply_status = status httpResponse, reply_headers = cors_headers hs,
      reply_body = r_body httpResponse\<rparr>"

text \<open>Lines 150--158: the catch block; its argument is \<open>String(error)\<close>.\<close>

definition error_reply :: "header_table \<Rightarrow> string \<Rightarrow> http_reply" where
  "error_reply hs err =
     \<lparr>reply_status = 500, reply_headers = cors_headers hs,
      reply_body = JSON_stringify (JObject [(''error'', JString err)])\<rparr>"

text \<open>\<open>String(new Error('Request timeout'))\<close>, line 132.\<close>

definition timeout_error :: string where
  "timeout_error = ''Error: Request timeout''"

subsection \<open>Module state and the state of the handler invocations\<close>

text \<open>
  \<open>responsePromise\<close> of one invocation of the catch-all handler is pending, fulfilled
  with a response event, or rejected with an error (kept as \<open>String(error)\<close>).
\<close>

datatype promise_state = Pending | Fulfilled HttpResponseEvent | Rejected string

text \<open>
  One invocation of the catch-all handler (lines 94--159): its constant \<open>request_id\<close>,
  the header table of its \<open>res\<close> on entry, its promise, whether it is suspended at the
  \<open>await\<close> of line 141, and the time at which its timer of line 129 is due.
\<close>

record call =
  call_id :: nat
  call_res :: header_table
  promise :: promise_state
  awaiting :: bool
  deadline :: nat

text \<open>One call of \<open>startHttpServer\<close>: the window it was given and whether its server
  is open.\<close>

record server =
  mainWindow :: nat
  listening :: bool

text \<open>
  \<open>requestIdCounter\<close> and \<open>pendingRequests\<close> are the module's variables of lines
  22--23. A value of \<open>pendingRequests\<close> is the \<open>resolve\<close> function of a promise, named
  by the number of the invocation that owns the promise (its index in \<open>calls\<close>). A timer
  is (time due, captured \<open>request_id\<close>, invocation whose \<open>reject\<close> it captured).
  \<open>sent\<close> logs \<open>webContents.send\<close> (window, event); \<open>replies\<close> logs what was written
  to the HTTP clients (invocation, time, response).
\<close>

record bridge =
  requestIdCounter :: nat
  pendingRequests :: "nat \<rightharpoonup> nat"
  calls :: "call list"
  timers :: "(nat \<times> nat \<times> nat) list"
  servers :: "server list"
  sent :: "(nat \<times> HttpRequestEvent) list"
  replies :: "(nat \<times> nat \<times> http_reply) list"
  now :: nat

definition init_state :: bridge where
  "init_state =
     \<lparr>requestIdCounter = 1, pendingRequests = Map.empty, calls = [], timers = [],
      servers = [], sent = [], replies = [], now = 0\<rparr>"

subsection \<open>Settling a promise\<close>

text \<open>
  \<open>resolve\<close> of invocation \<open>c\<close>: a settled promise ignores it. If the handler is
  suspended on the promise it resumes at line 144 and writes the response.
\<close>

definition resolve :: "nat \<Rightarrow> HttpResponseEvent \<Rightarrow> bridge \<Rightarrow> bridge" where
  "resolve c v st =
     (if c < length (calls st) \<and> promise (calls st ! c) = Pending then
        st\<lparr>calls := (calls st)[c := (calls st ! c)\<lparr>promise := Fulfilled v, awaiting := False\<rparr>],
           replies :=
             (if awaiting (calls st ! c)
              then replies st @ [(c, now st, success_reply (call_res (calls st ! c)) v)]
              else replies st)\<rparr>
      else st)"

text \<open>\<open>reject\<close> of invocation \<open>c\<close>: the suspended handler resumes in the catch block.\<close>

definition reject :: "nat \<Rightarrow> string \<Rightarrow> bridge \<Rightarrow> bridge" where
  "reject c err st =
     (if c < length (calls st) \<and> promise (calls st ! c) = Pending then
        st\<lparr>calls := (calls st)[c := (calls st ! c)\<lparr>promise := Rejected err, awaiting := False\<rparr>],
           replies :=
             (if awaiting (calls st ! c)
              then replies st @ [(c, now st, error_reply (call_res (calls st ! c)) err)]
              else replies st)\<rparr>
      else st)"

subsection \<open>The handlers\<close>

text \<open>Lines 82--91.\<close>

definition ipc_message_handler :: "string \<Rightarrow> HttpResponseEvent \<Rightarrow> bridge \<Rightarrow> bridge" where
  "ipc_message_handler channel response st =
     (if channel = ''http-response'' then
        (case pendingRequests st (r_request_id response) of
           Some resolver \<Rightarrow>
             (resolve resolver response st)
               \<lparr>pendingRequests := (pendingRequests st)(r_request_id response := None)\<rparr>
         | None \<Rightarrow> st)
      else st)"

text \<open>Line 126, \<open>pendingRequests.set(request_id, resolve)\<close>.\<close>

definition register_pending :: "nat \<Rightarrow> nat \<Rightarrow> bridge \<Rightarrow> bridge" where
  "register_pending rid resolver st =
     st\<lparr>pendingRequests := (pendingRequests st)(rid \<mapsto> resolver)\<rparr>"

text \<open>Lines 129--134, the callback given to \<open>setTimeout\<close>.\<close>

definition timeout_callback :: "nat \<Rightarrow> nat \<Rightarrow> bridge \<Rightarrow> bridge" where
  "timeout_callback rid c st =
     (if rid \<in> dom (pendingRequests st) then
        reject c timeout_error (st\<lparr>pendingRequests := (pendingRequests st)(rid := None)\<rparr>)
      else st)"

text \<open>What \<open>webContents.send\<close> does: it returns, or it throws (the string is
  \<open>String(error)\<close>).\<close>

datatype send_outcome = SendOk | SendThrows string

text \<open>
  Lines 94--159 up to the first suspension, for the server whose window is \<open>w\<close>:
  the identifier is taken and the counter incremented (96), the event is built
  (99--122), the promise is created, its \<open>resolve\<close> registered and its timer started
  (125--135), the event is sent (138). If the send returns, the handler suspends (141);
  if it throws, the catch block answers (150--158).
\<close>

definition app_all_handler ::
  "nat \<Rightarrow> http_request \<Rightarrow> header_table \<Rightarrow> send_outcome \<Rightarrow> bridge \<Rightarrow> bridge" where
  "app_all_handler w req hs outcome st =
     (let rid = requestIdCounter st;
          c = length (calls st);
          ev = requestEvent req rid;
          st1 = st\<lparr>requestIdCounter := rid + 1\<rparr>;
          st2 = register_pending rid c
                  (st1\<lparr>calls := calls st1 @
                          [\<lparr>call_id = rid, call_res = hs, promise = Pending,
                            awaiting = False, deadline = now st + 30000\<rparr>]\<rparr>);
          st3 = st2\<lparr>timers := timers st2 @ [(now st + 30000, rid, c)]\<rparr>
      in case outcome of
           SendOk \<Rightarrow>
             st3\<lparr>sent := sent st3 @ [(w, ev)],
                 calls := (calls st3)[c := (calls st3 ! c)\<lparr>awaiting := True\<rparr>]\<rparr>
         | SendThrows err \<Rightarrow>
             st3\<lparr>replies := replies st3 @ [(c, now st, error_reply hs err)]\<rparr>)"

text \<open>Lines 25--182: the handlers are installed for the window and the server opened.\<close>

definition startHttpServer :: "nat \<Rightarrow> bridge \<Rightarrow> bridge" where
  "startHttpServer w st = st\<lparr>servers := servers st @ [\<lparr>mainWindow = w, listening = True\<rparr>]\<rparr>"

text \<open>
  Lines 185--192, the function \<open>startHttpServer\<close> is written to return: \<open>server.close\<close>.
  (The promise of lines 168--182 has no call of its \<open>resolve\<close>, so the source never
  reaches line 185; the model lets the function be called all the same.)
\<close>

definition cleanup :: "nat \<Rightarrow> bridge \<Rightarrow> bridge" where
  "cleanup i st = st\<lparr>servers := (servers st)[i := (servers st ! i)\<lparr>listening := False\<rparr>]\<rparr>"

text \<open>An \<open>ipc-message\<close> of window \<open>w\<close> runs the listener of every server started on
  \<open>w\<close>.\<close>

fun emit_ipc :: "server list \<Rightarrow> nat \<Rightarrow> string \<Rightarrow> HttpResponseEvent \<Rightarrow> bridge \<Rightarrow> bridge" where
  "emit_ipc [] w channel response st = st"
| "emit_ipc (s # ss) w channel response st =
     emit_ipc ss w channel response
       (if mainWindow s = w then ipc_message_handler channel response st else st)"

subsection \<open>The event loop\<close>

text \<open>
  \<open>Start w\<close>: \<open>startHttpServer\<close> is called with window \<open>w\<close>.
  \<open>Request i req hs outcome\<close>: server \<open>i\<close> hands a request to its catch-all handler;
  \<open>hs\<close> is the header table of the response at that moment and \<open>outcome\<close> what
  \<open>webContents.send\<close> will do. A closed server can still do so, for a connection that
  was open when it closed.
  \<open>IpcMessage w channel response\<close>: window \<open>w\<close> emits \<open>ipc-message\<close>.
  \<open>Tick d\<close>: \<open>d\<close> milliseconds pass.
  \<open>Fire k\<close>: the callback of the \<open>k\<close>-th waiting timer runs; this needs the timer to be due.
  \<open>Cleanup i\<close>: the teardown function of server \<open>i\<close> is called.
  A step is \<open>None\<close> when the event cannot happen in the state.
\<close>

datatype event =
    Start nat
  | Request nat http_request header_table send_outcome
  | IpcMessage nat string HttpResponseEvent
  | Tick nat
  | Fire nat
  | Cleanup nat

fun step :: "event \<Rightarrow> bridge \<Rightarrow> bridge option" where
  "step (Start w) st = Some (startHttpServer w st)"
| "step (Request i req hs outcome) st =
     (if i < length (servers st)
      then Some (app_all_handler (mainWindow (servers st ! i)) req hs outcome st)
      else None)"
| "step (IpcMessage w channel response) st = Some (emit_ipc (servers st) w channel response st)"
| "step (Tick d) st = Some (st\<lparr>now := now st + d\<rparr>)"
| "step (Fire k) st =
     (if k < length (timers st) \<and> fst (timers st ! k) \<le> now st
      then (case timers st ! k of (d, rid, c) \<Rightarrow>
              Some (timeout_callback rid c
                      (st\<lparr>timers := take k (timers st) @ drop (Suc k) (timers st)\<rparr>)))
      else None)"
| "step (Cleanup i) st = (if i < length (servers st) then Some (cleanup i st) else None)"

fun run :: "event list \<Rightarrow> bridge \<Rightarrow> bridge option" where
  "run [] st = Some st"
| "run (e # es) st = (case step e st of None \<Rightarrow> None | Some st' \<Rightarrow> run es st')"

inductive reachable :: "bridge \<Rightarrow> bool" where
  reachable_init: "reachable init_state"
| reachable_step: "reachable st \<Longrightarrow> step e st = Some st' \<Longrightarrow> reachable st'"

subsection \<open>Invariants of the reachable states\<close>

text \<open>
  Invocation number \<open>c\<close> (counted from 0 in the order the requests were accepted) has
  the identifier \<open>c + 1\<close>, and the counter is one more than the number of invocations.
\<close>

definition inv_ids :: "bridge \<Rightarrow> bool" where
  "inv_ids st \<longleftrightarrow>
     requestIdCounter st = length (calls st) + 1 \<and>
     (\<forall>c < length (calls st). call_id (calls st ! c) = c + 1)"

text \<open>An entry of the table is the \<open>resolve\<close> of the invocation that has its identifier;
  the promise of that invocation is pending and its timer is waiting.\<close>

definition inv_table :: "bridge \<Rightarrow> bool" where
  "inv_table st \<longleftrightarrow>
     (\<forall>n c. pendingRequests st n = Some c \<longrightarrow>
        n = c + 1 \<and> c < length (calls st) \<and>
        promise (calls st ! c) = Pending \<and>
        (deadline (calls st ! c), n, c) \<in> set (timers st))"

text \<open>A waiting timer belongs to an invocation and is due at its deadline.\<close>

definition inv_timers :: "bridge \<Rightarrow> bool" where
  "inv_timers st \<longleftrightarrow>
     (\<forall>d n c. (d, n, c) \<in> set (timers st) \<longrightarrow>
        n = c + 1 \<and> c < length (calls st) \<and> deadline (calls st ! c) = d)"

text \<open>A suspended handler has its entry in the table.\<close>

definition inv_await :: "bridge \<Rightarrow> bool" where
  "inv_await st \<longleftrightarrow>
     (\<forall>c < length (calls st). awaiting (calls st ! c) \<longrightarrow>
        pendingRequests st (c + 1) = Some c)"

definition inv_core :: "bridge \<Rightarrow> bool" where
  "inv_core st \<longleftrightarrow> inv_ids st \<and> inv_table st \<and> inv_timers st \<and> inv_await st"

text \<open>An event with identifier \<open>n\<close> has been sent to a renderer.\<close>

definition forwarded :: "bridge \<Rightarrow> nat \<Rightarrow> bool" where
  "forwarded st n \<longleftrightarrow> n \<in> set (map (\<lambda>x. request_id (snd x)) (sent st))"

text \<open>The responses written to the caller of invocation \<open>c\<close>, each with its time.\<close>

definition replies_of :: "bridge \<Rightarrow> nat \<Rightarrow> (nat \<times> http_reply) list" where
  "replies_of st c = map snd (filter (\<lambda>x. fst x = c) (replies st))"

text \<open>
  What has been written to the caller of invocation \<open>c\<close>, by the state of the
  invocation. A promise is only rejected by the timer, at or after the deadline. A
  suspended handler has sent its event and written nothing. A handler that sent its
  event and is no longer suspended has written one response: the answer that fulfilled
  its promise, or the timeout error at or after its deadline. A handler whose send threw
  has written the one response of its catch block, at the time the request was accepted.
\<close>

definition call_log :: "bridge \<Rightarrow> nat \<Rightarrow> bool" where
  "call_log st c \<longleftrightarrow>
     (let cl = calls st ! c; rs = replies_of st c in
        (\<forall>e. promise cl = Rejected e \<longrightarrow> e = timeout_error \<and> deadline cl \<le> now st) \<and>
        (if awaiting cl then forwarded st (Suc c) \<and> rs = []
         else if forwarded st (Suc c) then
           (case promise cl of
              Pending \<Rightarrow> False
            | Fulfilled v \<Rightarrow> (\<exists>t. rs = [(t, success_reply (call_res cl) v)])
            | Rejected e \<Rightarrow>
                (\<exists>t. deadline cl \<le> t \<and> rs = [(t, error_reply (call_res cl) timeout_error)]))
         else 30000 \<le> deadline cl \<and>
              (\<exists>err. rs = [(deadline cl - 30000, error_reply (call_res cl) err)])))"

text \<open>Identifiers sent and invocations answered exist, and every invocation has the log
  above.\<close>

definition inv_log :: "bridge \<Rightarrow> bool" where
  "inv_log st \<longleftrightarrow>
     (\<forall>x \<in> set (sent st). request_id (snd x) \<le> length (calls st)) \<and>
     (\<forall>x \<in> set (replies st). fst x < length (calls st)) \<and>
     (\<forall>c < length (calls st). call_log st c)"

definition bridge_inv :: "bridge \<Rightarrow> bool" where
  "bridge_inv st \<longleftrightarrow> inv_core st \<and> inv_log st"

subsection \<open>Observations on runs\<close>

text \<open>The number of steps, along a sequence of events from a state, at which the entry of
  identifier \<open>n\<close> leaves the table.\<close>

fun removals :: "nat \<Rightarrow> event list \<Rightarrow> bridge \<Rightarrow> nat" where
  "removals n [] st = 0"
| "removals n (e # es) st =
     (case step e st of
        None \<Rightarrow> 0
      | Some st' \<Rightarrow>
          (if pendingRequests st n \<noteq> None \<and> pendingRequests st' n = None then 1 else 0) +
          removals n es st')"

subsection \<open>Concrete requests and states\<close>

text \<open>
  Two requests; two servers just started, on the windows 0 and 1; one request accepted by
  each server and sent (identifiers 1 and 2); response events for both identifiers; the
  state after the response for identifier 1.
\<close>

definition reqA :: http_request where
  "reqA = \<lparr>req_method = ''GET'', req_path = ''/foo'',
            req_headers = [(''x'', HString ''1'')], req_body = None\<rparr>"

definition reqB :: http_request where
  "reqB = \<lparr>req_method = ''POST'', req_path = ''/bar'',
            req_headers = [(''content-type'', HString ''application/json'')],
            req_body = Some (JObject [(''a'', JNumber 1)])\<rparr>"

definition two_servers :: bridge where
  "two_servers = startHttpServer 1 (startHttpServer 0 init_state)"

definition two_pending :: bridge where
  "two_pending =
     app_all_handler 1 reqB Map.empty SendOk (app_all_handler 0 reqA Map.empty SendOk two_servers)"

definition reply2 :: HttpResponseEvent where
  "reply2 = \<lparr>r_request_id = 2, status = 200, r_body = ''ok''\<rparr>"

definition reply1 :: HttpResponseEvent where
  "reply1 = \<lparr>r_request_id = 1, status = 200, r_body = ''ok''\<rparr>"

definition one_answered :: bridge where
  "one_answered = ipc_message_handler ''http-response'' reply1 two_pending"

text \<open>
  \<open>register\<close> of the specification's correlation table, in the specification's words:
  it fails (\<open>None\<close>) if the identifier is already present.
\<close>

definition spec_register :: "nat \<Rightarrow> nat \<Rightarrow> (nat \<rightharpoonup> nat) \<Rightarrow> (nat \<rightharpoonup> nat) option" where
  "spec_register rid completion table =
     (if rid \<in> dom table then None else Some (table(rid \<mapsto> completion)))"

text \<open>The first request, accepted by server 0, whose send throws; both servers closed
  with two requests pending.\<close>

definition send_failed :: bridge where
  "send_failed =
     app_all_handler 0 reqA Map.empty (SendThrows ''Error: Object has been destroyed'') two_servers"

definition all_closed :: bridge where
  "all_closed = cleanup 1 (cleanup 0 two_pending)"

text \<open>A header table carries the five cross-origin headers.\<close>

definition has_cors :: "header_table \<Rightarrow> bool" where
  "has_cors hs \<longleftrightarrow>
     hs ''Access-Control-Allow-Origin'' = Some ''*'' \<and>
     hs ''Access-Control-Allow-Headers'' = Some ''*'' \<and>
     hs ''Access-Control-Allow-Methods'' = Some ''*'' \<and>
     hs ''Access-Control-Expose-Headers'' = Some ''*'' \<and>
     hs ''Access-Control-Allow-Private-Network'' = Some ''true''"

text \<open>
  What the \<open>cors\<close> middleware, configured as in lines 29--35, has put on the response
  of a request that is not \<open>OPTIONS\<close> when the route handler starts: the origin and the
  exposed headers.
\<close>

definition cors_actual_headers :: header_table where
  "cors_actual_headers =
     [''Access-Control-Allow-Origin'' \<mapsto> ''*'', ''Access-Control-Expose-Headers'' \<mapsto> ''*'']"

text \<open>Every response written so far carries them.\<close>

definition replies_cors :: "bridge \<Rightarrow> bool" where
  "replies_cors st \<longleftrightarrow> (\<forall>x \<in> set (replies st). has_cors (reply_headers (snd (snd x))))"

text \<open>Two requests pending and 30000 ms later.\<close>

definition late :: bridge where
  "late = two_pending\<lparr>now := 30000\<rparr>"

text \<open>The identifiers of the events sent so far, to any window.\<close>

definition sent_ids :: "bridge \<Rightarrow> nat list" where
  "sent_ids st = map (\<lambda>x. request_id (snd x)) (sent st)"

text \<open>The state after the timer of identifier 1 has run in \<open>late\<close>.\<close>

definition timed_out :: bridge where
  "timed_out = timeout_callback 1 0 (late\<lparr>timers := [(30000, 2, 1)]\<rparr>)"

subsection \<open>What each handler does to each component of the state\<close>

lemma app_all_handler_fields:
  "requestIdCounter (app_all_handler w req hs outcome st) = requestIdCounter st + 1"
  "pendingRequests (app_all_handler w req hs outcome st) =
     (pendingRequests st)(requestIdCounter st \<mapsto> length (calls st))"
  "calls (app_all_handler w req hs outcome st) =
     calls st @ [\<lparr>call_id = requestIdCounter st, call_res = hs, promise = Pending,
                  awaiting = (outcome = SendOk), deadline = now st + 30000\<rparr>]"
  "timers (app_all_handler w req hs outcome st) =
     timers st @ [(now st + 30000, requestIdCounter st, length (calls st))]"
  "sent (app_all_handler w req hs outcome st) =
     (if outcome = SendOk then sent st @ [(w, requestEvent req (requestIdCounter st))]
      else sent st)"
  "replies (app_all_handler w req hs outcome st) =
     (case outcome of SendOk \<Rightarrow> replies st
      | SendThrows err \<Rightarrow> replies st @ [(length (calls st), now st, error_reply hs err)])"
  "servers (app_all_handler w req hs outcome st) = servers st"
  "now (app_all_handler w req hs outcome st) = now st"
  by (cases outcome; simp add: app_all_handler_def register_pending_def Let_def)+

lemma resolve_fields:
  "requestIdCounter (resolve c v st) = requestIdCounter st"
  "pendingRequests (resolve c v st) = pendingRequests st"
  "timers (resolve c v st) = timers st"
  "sent (resolve c v st) = sent st"
  "servers (resolve c v st) = servers st"
  "now (resolve c v st) = now st"
  "length (calls (resolve c v st)) = length (calls st)"
  by (simp_all add: resolve_def Let_def)

lemma resolve_pending:
  assumes "c < length (calls st)" "promise (calls st ! c) = Pending"
  shows "calls (resolve c v st) =
           (calls st)[c := (calls st ! c)\<lparr>promise := Fulfilled v, awaiting := False\<rparr>]"
    and "replies (resolve c v st) =
           (if awaiting (calls st ! c)
            then replies st @ [(c, now st, success_reply (call_res (calls st ! c)) v)]
            else replies st)"
  using assms by (simp_all add: resolve_def Let_def)

lemma reject_fields:
  "requestIdCounter (reject c e st) = requestIdCounter st"
  "pendingRequests (reject c e st) = pendingRequests st"
  "timers (reject c e st) = timers st"
  "sent (reject c e st) = sent st"
  "servers (reject c e st) = servers st"
  "now (reject c e st) = now st"
  "length (calls (reject c e st)) = length (calls st)"
  by (simp_all add: reject_def Let_def)

lemma reject_pending:
  assumes "c < length (calls st)" "promise (calls st ! c) = Pending"
  shows "calls (reject c e st) =
           (calls st)[c := (calls st ! c)\<lparr>promise := Rejected e, awaiting := False\<rparr>]"
    and "replies (reject c e st) =
           (if awaiting (calls st ! c)
            then replies st @ [(c, now st, error_reply (call_res (calls st ! c)) e)]
            else replies st)"
  using assms by (simp_all add: reject_def Let_def)

lemma ipc_message_handler_other:
  "channel \<noteq> ''http-response'' \<or> pendingRequests st (r_request_id response) = None \<Longrightarrow>
     ipc_message_handler channel response st = st"
  by (auto simp: ipc_message_handler_def)

lemma ipc_message_handler_fields:
  "requestIdCounter (ipc_message_handler channel response st) = requestIdCounter st"
  "timers (ipc_message_handler channel response st) = timers st"
  "sent (ipc_message_handler channel response st) = sent st"
  "servers (ipc_message_handler channel response st) = servers st"
  "now (ipc_message_handler channel response st) = now st"
  "length (calls (ipc_message_handler channel response st)) = length (calls st)"
  by (simp_all add: ipc_message_handler_def resolve_fields split: option.splits)

lemma ipc_message_handler_match:
  assumes "pendingRequests st (r_request_id response) = Some c"
  shows "ipc_message_handler ''http-response'' response st =
           (resolve c response st)
             \<lparr>pendingRequests := (pendingRequests st)(r_request_id response := None)\<rparr>"
  using assms by (simp add: ipc_message_handler_def)

lemma timeout_callback_absent:
  "pendingRequests st rid = None \<Longrightarrow> timeout_callback rid c st = st"
  by (simp add: timeout_callback_def dom_def)

lemma timeout_callback_present:
  "pendingRequests st rid = Some c' \<Longrightarrow>
     timeout_callback rid c st =
       reject c timeout_error (st\<lparr>pendingRequests := (pendingRequests st)(rid := None)\<rparr>)"
  by (simp add: timeout_callback_def dom_def)

subsection \<open>The invariants hold in every reachable state\<close>

lemmas inv_core_defs = inv_core_def inv_ids_def inv_table_def inv_timers_def inv_await_def

lemma inv_tableD:
  "inv_core st \<Longrightarrow> pendingRequests st n = Some c \<Longrightarrow>
     n = Suc c \<and> c < length (calls st) \<and> promise (calls st ! c) = Pending \<and>
     (deadline (calls st ! c), Suc c, c) \<in> set (timers st)"
  unfolding inv_core_def inv_table_def by fastforce

lemma inv_timersD:
  "inv_core st \<Longrightarrow> (d, n, c) \<in> set (timers st) \<Longrightarrow>
     n = Suc c \<and> c < length (calls st) \<and> deadline (calls st ! c) = d"
  unfolding inv_core_def inv_timers_def by fastforce

lemma inv_awaitD:
  "inv_core st \<Longrightarrow> c < length (calls st) \<Longrightarrow> awaiting (calls st ! c) \<Longrightarrow>
     pendingRequests st (Suc c) = Some c"
  unfolding inv_core_def inv_await_def by simp

lemma inv_idsD:
  "inv_core st \<Longrightarrow> requestIdCounter st = Suc (length (calls st))"
  "inv_core st \<Longrightarrow> c < length (calls st) \<Longrightarrow> call_id (calls st ! c) = Suc c"
  unfolding inv_core_def inv_ids_def by simp_all

lemma inv_core_init: "inv_core init_state"
  by (simp add: inv_core_defs init_state_def)

lemma inv_core_start: "inv_core st \<Longrightarrow> inv_core (startHttpServer w st)"
  by (simp add: inv_core_defs startHttpServer_def)

lemma inv_core_cleanup: "inv_core st \<Longrightarrow> inv_core (cleanup i st)"
  by (simp add: inv_core_defs cleanup_def)

lemma inv_core_tick: "inv_core st \<Longrightarrow> inv_core (st\<lparr>now := now st + d\<rparr>)"
  by (simp add: inv_core_defs)

lemma inv_core_request:
  assumes "inv_core st"
  shows "inv_core (app_all_handler w req hs outcome st)"
proof -
  let ?st' = "app_all_handler w req hs outcome st"
  note f = app_all_handler_fields
  have cnt: "requestIdCounter st = Suc (length (calls st))"
    using assms by (rule inv_idsD)
  have "inv_ids ?st'"
    using assms by (auto simp: inv_core_def inv_ids_def f nth_append)
  moreover have "inv_table ?st'"
    unfolding inv_table_def
  proof (intro allI impI)
    fix n c
    assume h: "pendingRequests ?st' n = Some c"
    show "n = c + 1 \<and> c < length (calls ?st') \<and> promise (calls ?st' ! c) = Pending \<and>
          (deadline (calls ?st' ! c), n, c) \<in> set (timers ?st')"
    proof (cases "n = requestIdCounter st")
      case True
      with h cnt show ?thesis by (simp add: f nth_append)
    next
      case False
      with h have "pendingRequests st n = Some c" by (simp add: f)
      from inv_tableD [OF assms this] show ?thesis by (simp add: f nth_append)
    qed
  qed
  moreover have "inv_timers ?st'"
    unfolding inv_timers_def
  proof (intro allI impI)
    fix d n c
    assume "(d, n, c) \<in> set (timers ?st')"
    then consider "(d, n, c) \<in> set (timers st)"
      | "d = now st + 30000" "n = requestIdCounter st" "c = length (calls st)"
      by (auto simp: f)
    then show "n = c + 1 \<and> c < length (calls ?st') \<and> deadline (calls ?st' ! c) = d"
    proof cases
      case 1
      from inv_timersD [OF assms this] show ?thesis by (simp add: f nth_append)
    next
      case 2
      with cnt show ?thesis by (simp add: f)
    qed
  qed
  moreover have "inv_await ?st'"
    unfolding inv_await_def
  proof (intro allI impI)
    fix c
    assume c: "c < length (calls ?st')" and a: "awaiting (calls ?st' ! c)"
    show "pendingRequests ?st' (c + 1) = Some c"
    proof (cases "c < length (calls st)")
      case True
      with a have "awaiting (calls st ! c)" by (simp add: f nth_append)
      from inv_awaitD [OF assms True this] True cnt show ?thesis by (simp add: f)
    next
      case False
      with c have "c = length (calls st)" by (simp add: f)
      with cnt show ?thesis by (simp add: f)
    qed
  qed
  ultimately show ?thesis by (simp add: inv_core_def)
qed

lemma inv_core_ipc:
  assumes "inv_core st"
  shows "inv_core (ipc_message_handler channel response st)"
proof (cases "channel \<noteq> ''http-response'' \<or> pendingRequests st (r_request_id response) = None")
  case True
  then show ?thesis using assms by (simp add: ipc_message_handler_other)
next
  case False
  then obtain c where ch: "channel = ''http-response''"
    and p: "pendingRequests st (r_request_id response) = Some c" by auto
  from inv_tableD [OF assms p]
  have n: "r_request_id response = Suc c" and c: "c < length (calls st)"
    and pe: "promise (calls st ! c) = Pending" by simp_all
  let ?st' = "ipc_message_handler channel response st"
  have eq: "?st' = (resolve c response st)\<lparr>pendingRequests := (pendingRequests st)(Suc c := None)\<rparr>"
    using ch p n by (simp add: ipc_message_handler_match)
  note f = resolve_fields resolve_pending [OF c pe]
  have "inv_ids ?st'"
    using assms c by (auto simp: eq inv_core_def inv_ids_def f nth_list_update)
  moreover have "inv_table ?st'"
    unfolding inv_table_def
  proof (intro allI impI)
    fix n' c'
    assume h: "pendingRequests ?st' n' = Some c'"
    then have ne: "n' \<noteq> Suc c" and old: "pendingRequests st n' = Some c'"
      by (auto simp: eq split: if_splits)
    from inv_tableD [OF assms old] ne c show
      "n' = c' + 1 \<and> c' < length (calls ?st') \<and> promise (calls ?st' ! c') = Pending \<and>
       (deadline (calls ?st' ! c'), n', c') \<in> set (timers ?st')"
      by (auto simp: eq f nth_list_update)
  qed
  moreover have "inv_timers ?st'"
    unfolding inv_timers_def
  proof (intro allI impI)
    fix d n' c'
    assume "(d, n', c') \<in> set (timers ?st')"
    then have "(d, n', c') \<in> set (timers st)" by (simp add: eq f)
    from inv_timersD [OF assms this] c show
      "n' = c' + 1 \<and> c' < length (calls ?st') \<and> deadline (calls ?st' ! c') = d"
      by (auto simp: eq f nth_list_update)
  qed
  moreover have "inv_await ?st'"
    unfolding inv_await_def
  proof (intro allI impI)
    fix c'
    assume c': "c' < length (calls ?st')" and a: "awaiting (calls ?st' ! c')"
    with c have ne: "c' \<noteq> c" and "c' < length (calls st)" "awaiting (calls st ! c')"
      by (auto simp: eq f nth_list_update split: if_splits)
    from inv_awaitD [OF assms this(2,3)] ne
    show "pendingRequests ?st' (c' + 1) = Some c'" by (simp add: eq)
  qed
  ultimately show ?thesis by (simp add: inv_core_def)
qed

lemma inv_core_emit: "inv_core st \<Longrightarrow> inv_core (emit_ipc ss w channel response st)"
  by (induction ss arbitrary: st) (simp_all add: inv_core_ipc)

lemma in_set_remove_nth:
  assumes "x \<in> set xs" "x \<noteq> xs ! k"
  shows "x \<in> set (take k xs @ drop (Suc k) xs)"
proof (cases "k < length xs")
  case True
  then have "set xs = set (take k xs @ xs ! k # drop (Suc k) xs)"
    by (rule arg_cong [OF id_take_nth_drop])
  with assms show ?thesis by auto
next
  case False
  with assms show ?thesis by simp
qed

lemma set_remove_nth_subset: "x \<in> set (take k xs @ drop (Suc k) xs) \<Longrightarrow> x \<in> set xs"
  by (auto dest: in_set_takeD in_set_dropD)

lemma inv_core_fire:
  assumes "inv_core st" "k < length (timers st)" "timers st ! k = (d, n, c)"
  shows "inv_core (timeout_callback n c
           (st\<lparr>timers := take k (timers st) @ drop (Suc k) (timers st)\<rparr>))"
proof -
  let ?ts = "take k (timers st) @ drop (Suc k) (timers st)"
  let ?st0 = "st\<lparr>timers := ?ts\<rparr>"
  define st' where "st' = timeout_callback n c ?st0"
  have "(d, n, c) \<in> set (timers st)"
    using assms(2,3) by (metis nth_mem)
  from inv_timersD [OF assms(1) this]
  have n: "n = Suc c" and c: "c < length (calls st)" and d: "deadline (calls st ! c) = d"
    by simp_all
  have keep: "(d', n', c') \<in> set ?ts" if "(d', n', c') \<in> set (timers st)" "n' \<noteq> n" for d' n' c'
    using that assms(3) by (intro in_set_remove_nth) auto
  have drop: "(d', n', c') \<in> set (timers st)" if "(d', n', c') \<in> set ?ts" for d' n' c'
    using that by (rule set_remove_nth_subset)
  have "inv_core st'"
  proof (cases "pendingRequests st n")
    case None
    then have eq: "st' = ?st0" by (simp add: st'_def timeout_callback_absent)
    have "inv_ids st'"
      using assms(1) by (simp add: eq inv_core_def inv_ids_def)
    moreover have "inv_table st'"
      unfolding inv_table_def
    proof (intro allI impI)
      fix n' c'
      assume "pendingRequests st' n' = Some c'"
      then have old: "pendingRequests st n' = Some c'" by (simp add: eq)
      with None have "n' \<noteq> n" by auto
      with inv_tableD [OF assms(1) old] keep [of "deadline (calls st ! c')" n' c']
      show "n' = c' + 1 \<and> c' < length (calls st') \<and> promise (calls st' ! c') = Pending \<and>
            (deadline (calls st' ! c'), n', c') \<in> set (timers st')"
        by (simp add: eq)
    qed
    moreover have "inv_timers st'"
      unfolding inv_timers_def
    proof (intro allI impI)
      fix d' n' c'
      assume "(d', n', c') \<in> set (timers st')"
      then have "(d', n', c') \<in> set (timers st)" using drop by (simp add: eq)
      from inv_timersD [OF assms(1) this]
      show "n' = c' + 1 \<and> c' < length (calls st') \<and> deadline (calls st' ! c') = d'"
        by (simp add: eq)
    qed
    moreover have "inv_await st'"
      using assms(1) by (simp add: eq inv_core_def inv_await_def)
    ultimately show ?thesis by (simp add: inv_core_def)
  next
    case (Some c0)
    from inv_tableD [OF assms(1) Some] n
    have c0: "c0 = c" and pe: "promise (calls st ! c) = Pending" by simp_all
    let ?st1 = "?st0\<lparr>pendingRequests := (pendingRequests ?st0)(n := None)\<rparr>"
    have eq: "st' = reject c timeout_error ?st1"
      using Some by (simp add: st'_def timeout_callback_present)
    note f = reject_fields reject_pending c pe
    have "inv_ids st'"
      using assms(1) c by (auto simp: eq inv_core_def inv_ids_def f nth_list_update)
    moreover have "inv_table st'"
      unfolding inv_table_def
    proof (intro allI impI)
      fix n' c'
      assume "pendingRequests st' n' = Some c'"
      then have ne: "n' \<noteq> n" and old: "pendingRequests st n' = Some c'"
        by (auto simp: eq f split: if_splits)
      with inv_tableD [OF assms(1) old] keep [of "deadline (calls st ! c')" n' c'] n c
      show "n' = c' + 1 \<and> c' < length (calls st') \<and> promise (calls st' ! c') = Pending \<and>
            (deadline (calls st' ! c'), n', c') \<in> set (timers st')"
        by (auto simp: eq f nth_list_update)
    qed
    moreover have "inv_timers st'"
      unfolding inv_timers_def
    proof (intro allI impI)
      fix d' n' c'
      assume "(d', n', c') \<in> set (timers st')"
      then have "(d', n', c') \<in> set (timers st)" using drop by (simp add: eq f)
      from inv_timersD [OF assms(1) this] c
      show "n' = c' + 1 \<and> c' < length (calls st') \<and> deadline (calls st' ! c') = d'"
        by (auto simp: eq f nth_list_update)
    qed
    moreover have "inv_await st'"
      unfolding inv_await_def
    proof (intro allI impI)
      fix c'
      assume "c' < length (calls st')" and "awaiting (calls st' ! c')"
      with c have ne: "c' \<noteq> c" and "c' < length (calls st)" "awaiting (calls st ! c')"
        by (auto simp: eq f nth_list_update split: if_splits)
      from inv_awaitD [OF assms(1) this(2,3)] ne n
      show "pendingRequests st' (c' + 1) = Some c'" by (simp add: eq f)
    qed
    ultimately show ?thesis by (simp add: inv_core_def)
  qed
  then show ?thesis by (simp add: st'_def)
qed

lemma inv_core_step:
  assumes "inv_core st" "step e st = Some st'"
  shows "inv_core st'"
proof (cases e)
  case (Start w)
  with assms show ?thesis by (auto simp: inv_core_start)
next
  case (Request i req hs outcome)
  with assms show ?thesis by (auto simp: inv_core_request split: if_splits)
next
  case (IpcMessage w channel response)
  with assms show ?thesis by (auto simp: inv_core_emit)
next
  case (Tick d)
  with assms show ?thesis by (auto simp: inv_core_tick)
next
  case (Fire k)
  with assms(2) have k: "k < length (timers st)" by (simp split: if_splits)
  obtain d n c where t: "timers st ! k = (d, n, c)" by (cases "timers st ! k")
  with assms(2) Fire k have "st' = timeout_callback n c
           (st\<lparr>timers := take k (timers st) @ drop (Suc k) (timers st)\<rparr>)"
    by (simp split: if_splits)
  with inv_core_fire [OF assms(1) k t] show ?thesis by simp
next
  case (Cleanup i)
  with assms show ?thesis by (auto simp: inv_core_cleanup split: if_splits)
qed

subsection \<open>The log of responses\<close>

lemma call_log_cong:
  assumes "call_log st c" "calls st' ! c = calls st ! c" "replies_of st' c = replies_of st c"
    "forwarded st' (Suc c) = forwarded st (Suc c)" "now st \<le> now st'"
  shows "call_log st' c"
  using assms unfolding call_log_def Let_def
  by (auto split: promise_state.splits if_splits)

lemma replies_of_fresh:
  "\<forall>x \<in> set (replies st). fst x < length (calls st) \<Longrightarrow> replies_of st (length (calls st)) = []"
  by (auto simp: replies_of_def filter_empty_conv)

lemma forwarded_fresh:
  "\<forall>x \<in> set (sent st). request_id (snd x) \<le> length (calls st) \<Longrightarrow>
     \<not> forwarded st (Suc (length (calls st)))"
  by (auto simp: forwarded_def)

lemma inv_log_init: "inv_log init_state"
  by (simp add: inv_log_def init_state_def)

lemma inv_log_cong:
  assumes "inv_log st" "calls st' = calls st" "replies st' = replies st" "sent st' = sent st"
    "now st \<le> now st'"
  shows "inv_log st'"
proof -
  have "call_log st' c" if "c < length (calls st)" for c
  proof (rule call_log_cong [where st = st])
    show "call_log st c" using assms(1) that by (simp add: inv_log_def)
  qed (simp_all add: assms replies_of_def forwarded_def)
  with assms show ?thesis by (simp add: inv_log_def)
qed

lemma inv_log_start: "inv_log st \<Longrightarrow> inv_log (startHttpServer w st)"
  by (erule inv_log_cong) (simp_all add: startHttpServer_def)

lemma inv_log_cleanup: "inv_log st \<Longrightarrow> inv_log (cleanup i st)"
  by (erule inv_log_cong) (simp_all add: cleanup_def)

lemma inv_log_tick: "inv_log st \<Longrightarrow> inv_log (st\<lparr>now := now st + d\<rparr>)"
  by (erule inv_log_cong) simp_all

lemma inv_log_request:
  assumes "inv_log st" "inv_core st"
  shows "inv_log (app_all_handler w req hs outcome st)"
proof -
  define st' where "st' = app_all_handler w req hs outcome st"
  note f = app_all_handler_fields [of w req hs outcome st, folded st'_def]
  have cnt: "requestIdCounter st = Suc (length (calls st))"
    using assms(2) by (rule inv_idsD)
  have a: "\<forall>x \<in> set (sent st). request_id (snd x) \<le> length (calls st)"
    and b: "\<forall>x \<in> set (replies st). fst x < length (calls st)"
    and l: "\<And>c. c < length (calls st) \<Longrightarrow> call_log st c"
    using assms(1) by (auto simp: inv_log_def)
  have "\<forall>x \<in> set (sent st'). request_id (snd x) \<le> length (calls st')"
    using a cnt by (auto simp: f requestEvent_def)
  moreover have "\<forall>x \<in> set (replies st'). fst x < length (calls st')"
    using b by (cases outcome) (auto simp: f)
  moreover have "call_log st' c" if c: "c < length (calls st')" for c
  proof (cases "c < length (calls st)")
    case True
    have 1: "replies_of st' c = replies_of st c"
      using True by (cases outcome) (auto simp: f replies_of_def)
    have 2: "forwarded st' (Suc c) = forwarded st (Suc c)"
      using True cnt by (auto simp: f forwarded_def requestEvent_def)
    have 3: "calls st' ! c = calls st ! c" and 4: "now st \<le> now st'"
      using True by (simp_all add: f nth_append)
    show ?thesis by (rule call_log_cong [OF l [OF True] 3 1 2 4])
  next
    case False
    with c have c: "c = length (calls st)" by (simp add: f)
    have r0: "replies_of st c = []" unfolding c using b by (rule replies_of_fresh)
    have f0: "\<not> forwarded st (Suc c)" unfolding c using a by (rule forwarded_fresh)
    show ?thesis
    proof (cases outcome)
      case SendOk
      with r0 f0 cnt c show ?thesis
        by (simp add: call_log_def f replies_of_def forwarded_def requestEvent_def)
    next
      case (SendThrows err)
      with r0 f0 cnt c show ?thesis
        by (auto simp: call_log_def f replies_of_def forwarded_def)
    qed
  qed
  ultimately show ?thesis by (simp add: inv_log_def st'_def)
qed

text \<open>Settling the promise of invocation \<open>c\<close>, shared by the two ways it happens.\<close>

lemma inv_log_settle:
  assumes "inv_log st" and c: "c < length (calls st)" and pe: "promise (calls st ! c) = Pending"
    and calls': "calls st' = (calls st)[c := (calls st ! c)\<lparr>promise := p, awaiting := False\<rparr>]"
    and replies': "replies st' =
           (if awaiting (calls st ! c) then replies st @ [(c, now st, r)] else replies st)"
    and sent': "sent st' = sent st" and now': "now st' = now st"
    and p: "(\<exists>v. p = Fulfilled v \<and> r = success_reply (call_res (calls st ! c)) v) \<or>
            (p = Rejected timeout_error \<and> r = error_reply (call_res (calls st ! c)) timeout_error \<and>
             deadline (calls st ! c) \<le> now st)"
  shows "inv_log st'"
proof -
  have a: "\<forall>x \<in> set (sent st). request_id (snd x) \<le> length (calls st)"
    and b: "\<forall>x \<in> set (replies st). fst x < length (calls st)"
    and l: "\<And>c. c < length (calls st) \<Longrightarrow> call_log st c"
    using assms(1) by (auto simp: inv_log_def)
  have "\<forall>x \<in> set (sent st'). request_id (snd x) \<le> length (calls st')"
    using a by (simp add: sent' calls')
  moreover have "\<forall>x \<in> set (replies st'). fst x < length (calls st')"
    using b c by (auto simp: replies' calls')
  moreover have "call_log st' c'" if c': "c' < length (calls st')" for c'
  proof (cases "c' = c")
    case False
    from c' have c'': "c' < length (calls st)" by (simp add: calls')
    have 1: "replies_of st' c' = replies_of st c'"
      using False by (auto simp: replies' replies_of_def)
    have 2: "forwarded st' (Suc c') = forwarded st (Suc c')"
      by (simp add: sent' forwarded_def)
    have 3: "calls st' ! c' = calls st ! c'" and 4: "now st \<le> now st'"
      using False by (simp_all add: calls' now')
    show ?thesis by (rule call_log_cong [OF l [OF c''] 3 1 2 4])
  next
    case True
    have fw: "forwarded st' (Suc c) = forwarded st (Suc c)"
      by (simp add: sent' forwarded_def)
    have cl: "calls st' ! c = (calls st ! c)\<lparr>promise := p, awaiting := False\<rparr>"
      using c by (simp add: calls')
    show ?thesis
    proof (cases "awaiting (calls st ! c)")
      case aw: True
      with l [OF c] have "forwarded st (Suc c)" "replies_of st c = []"
        by (simp_all add: call_log_def Let_def)
      moreover from aw have "replies_of st' c = replies_of st c @ [(now st, r)]"
        by (simp add: replies' replies_of_def)
      ultimately show ?thesis
        using p unfolding True call_log_def Let_def cl fw
        by (auto simp: now')
    next
      case naw: False
      with l [OF c] pe have nf: "\<not> forwarded st (Suc c)"
        and "30000 \<le> deadline (calls st ! c)"
        and "\<exists>err. replies_of st c = [(deadline (calls st ! c) - 30000,
                 error_reply (call_res (calls st ! c)) err)]"
        by (auto simp: call_log_def Let_def split: if_splits)
      moreover from naw have "replies_of st' c = replies_of st c"
        by (simp add: replies' replies_of_def)
      ultimately show ?thesis
        using p naw unfolding True call_log_def Let_def cl fw
        by (auto simp: now')
    qed
  qed
  ultimately show ?thesis by (simp add: inv_log_def)
qed

lemma inv_log_ipc:
  assumes "inv_log st" "inv_core st"
  shows "inv_log (ipc_message_handler channel response st)"
proof (cases "channel \<noteq> ''http-response'' \<or> pendingRequests st (r_request_id response) = None")
  case True
  then show ?thesis using assms by (simp add: ipc_message_handler_other)
next
  case False
  then obtain c where ch: "channel = ''http-response''"
    and p: "pendingRequests st (r_request_id response) = Some c" by auto
  from inv_tableD [OF assms(2) p]
  have c: "c < length (calls st)" and pe: "promise (calls st ! c) = Pending" by simp_all
  define st' where "st' = ipc_message_handler channel response st"
  have eq: "st' = (resolve c response st)
                    \<lparr>pendingRequests := (pendingRequests st)(r_request_id response := None)\<rparr>"
    using ch p by (simp add: st'_def ipc_message_handler_match)
  have "inv_log st'"
    by (rule inv_log_settle [OF assms(1) c pe, where p = "Fulfilled response"])
       (simp_all add: eq resolve_fields resolve_pending [OF c pe])
  then show ?thesis by (simp add: st'_def)
qed

lemma inv_log_emit:
  "inv_log st \<Longrightarrow> inv_core st \<Longrightarrow> inv_log (emit_ipc ss w channel response st)"
  by (induction ss arbitrary: st) (simp_all add: inv_log_ipc inv_core_ipc)

lemma inv_log_fire:
  assumes "inv_log st" "inv_core st" "k < length (timers st)" "timers st ! k = (d, n, c)"
    "d \<le> now st"
  shows "inv_log (timeout_callback n c
           (st\<lparr>timers := take k (timers st) @ drop (Suc k) (timers st)\<rparr>))"
proof -
  let ?st0 = "st\<lparr>timers := take k (timers st) @ drop (Suc k) (timers st)\<rparr>"
  define st' where "st' = timeout_callback n c ?st0"
  have "(d, n, c) \<in> set (timers st)"
    using assms(3,4) by (metis nth_mem)
  from inv_timersD [OF assms(2) this]
  have n: "n = Suc c" and c: "c < length (calls st)" and d: "deadline (calls st ! c) = d"
    by simp_all
  have "inv_log st'"
  proof (cases "pendingRequests st n")
    case None
    then have "st' = ?st0" by (simp add: st'_def timeout_callback_absent)
    with assms(1) show ?thesis by (auto elim!: inv_log_cong)
  next
    case (Some c0)
    from inv_tableD [OF assms(2) Some] n
    have pe: "promise (calls st ! c) = Pending" by simp
    have eq: "st' = reject c timeout_error
                      (?st0\<lparr>pendingRequests := (pendingRequests ?st0)(n := None)\<rparr>)"
      using Some by (simp add: st'_def timeout_callback_present)
    show ?thesis
      by (rule inv_log_settle [OF assms(1) c pe, where p = "Rejected timeout_error"])
         (simp_all add: eq reject_fields reject_pending c pe d assms(5))
  qed
  then show ?thesis by (simp add: st'_def)
qed

lemma bridge_inv_step:
  assumes "bridge_inv st" "step e st = Some st'"
  shows "bridge_inv st'"
proof -
  from assms(1) have core: "inv_core st" and log: "inv_log st" by (simp_all add: bridge_inv_def)
  have "inv_log st'"
  proof (cases e)
    case (Start w)
    with assms(2) log show ?thesis by (auto simp: inv_log_start)
  next
    case (Request i req hs outcome)
    with assms(2) log core show ?thesis by (auto simp: inv_log_request split: if_splits)
  next
    case (IpcMessage w channel response)
    with assms(2) log core show ?thesis by (auto simp: inv_log_emit)
  next
    case (Tick d)
    with assms(2) log show ?thesis by (auto simp: inv_log_tick)
  next
    case (Fire k)
    with assms(2) have k: "k < length (timers st)" and due: "fst (timers st ! k) \<le> now st"
      by (simp_all split: if_splits)
    obtain d n c where t: "timers st ! k = (d, n, c)" by (cases "timers st ! k")
    with assms(2) Fire k due have "st' = timeout_callback n c
             (st\<lparr>timers := take k (timers st) @ drop (Suc k) (timers st)\<rparr>)"
      by (simp split: if_splits)
    with inv_log_fire [OF log core k t] due t show ?thesis by simp
  next
    case (Cleanup i)
    with assms(2) log show ?thesis by (auto simp: inv_log_cleanup split: if_splits)
  qed
  with inv_core_step [OF core assms(2)] show ?thesis by (simp add: bridge_inv_def)
qed

lemma reachable_inv: "reachable st \<Longrightarrow> bridge_inv st"
proof (induction rule: reachable.induct)
  case reachable_init
  show ?case by (simp add: bridge_inv_def inv_core_init inv_log_init)
next
  case (reachable_step st e st')
  then show ?case by (auto intro: bridge_inv_step)
qed

subsection \<open>Dispatch and removal\<close>

text \<open>A second run of the listener on the same message changes nothing, so several
  servers on one window act as one.\<close>

lemma ipc_message_handler_idem:
  "ipc_message_handler channel response (ipc_message_handler channel response st) =
     ipc_message_handler channel response st"
proof (cases "channel \<noteq> ''http-response'' \<or> pendingRequests st (r_request_id response) = None")
  case True
  then show ?thesis by (simp add: ipc_message_handler_other)
next
  case False
  then obtain c where "channel = ''http-response''"
    and "pendingRequests st (r_request_id response) = Some c" by auto
  then have "pendingRequests (ipc_message_handler channel response st) (r_request_id response) = None"
    by (simp add: ipc_message_handler_match)
  then show ?thesis by (rule ipc_message_handler_other [OF disjI2])
qed

lemma emit_ipc_eq:
  "emit_ipc ss w channel response st =
     (if \<exists>s \<in> set ss. mainWindow s = w then ipc_message_handler channel response st else st)"
proof (induction ss arbitrary: st)
  case Nil
  show ?case by simp
next
  case (Cons s ss)
  show ?case by (simp add: Cons.IH ipc_message_handler_idem)
qed

lemma ipc_fulfils:
  assumes "inv_core st" "pendingRequests st n = Some c" "r_request_id response = n"
  shows "calls (ipc_message_handler ''http-response'' response st) =
           (calls st)[c := (calls st ! c)\<lparr>promise := Fulfilled response, awaiting := False\<rparr>]"
    and "replies (ipc_message_handler ''http-response'' response st) =
           (if awaiting (calls st ! c)
            then replies st @ [(c, now st, success_reply (call_res (calls st ! c)) response)]
            else replies st)"
    and "pendingRequests (ipc_message_handler ''http-response'' response st) =
           (pendingRequests st)(n := None)"
proof -
  from inv_tableD [OF assms(1,2)]
  have c: "c < length (calls st)" and pe: "promise (calls st ! c) = Pending" by simp_all
  have eq: "ipc_message_handler ''http-response'' response st =
              (resolve c response st)\<lparr>pendingRequests := (pendingRequests st)(n := None)\<rparr>"
    using assms(2,3) by (simp add: ipc_message_handler_match)
  show "calls (ipc_message_handler ''http-response'' response st) =
           (calls st)[c := (calls st ! c)\<lparr>promise := Fulfilled response, awaiting := False\<rparr>]"
    by (simp add: eq resolve_pending [OF c pe])
  show "replies (ipc_message_handler ''http-response'' response st) =
           (if awaiting (calls st ! c)
            then replies st @ [(c, now st, success_reply (call_res (calls st ! c)) response)]
            else replies st)"
    by (simp add: eq resolve_pending [OF c pe])
  show "pendingRequests (ipc_message_handler ''http-response'' response st) =
           (pendingRequests st)(n := None)"
    by (simp add: eq)
qed

lemma ipc_pending:
  "pendingRequests (ipc_message_handler channel response st) n =
     pendingRequests st n \<or>
   pendingRequests (ipc_message_handler channel response st) n = None"
  by (auto simp: ipc_message_handler_def resolve_fields split: option.splits)

lemma timeout_callback_pending:
  "pendingRequests (timeout_callback rid c st) =
     (pendingRequests st)(rid := None)"
  by (cases "pendingRequests st rid")
     (auto simp: timeout_callback_absent timeout_callback_present reject_fields)

lemma step_counter:
  assumes "step e st = Some st'"
  shows "requestIdCounter st' =
           (case e of Request i req hs outcome \<Rightarrow> requestIdCounter st + 1
            | _ \<Rightarrow> requestIdCounter st)"
proof (cases e)
  case (Fire k)
  with assms show ?thesis
    by (auto simp: timeout_callback_def reject_fields split: if_splits prod.splits)
qed (use assms in \<open>auto simp: app_all_handler_fields startHttpServer_def cleanup_def emit_ipc_eq
       ipc_message_handler_fields split: if_splits\<close>)

lemma step_absent_stays:
  assumes "step e st = Some st'" "n < requestIdCounter st" "pendingRequests st n = None"
  shows "pendingRequests st' n = None"
proof (cases e)
  case (IpcMessage w channel response)
  with assms ipc_pending [of channel response st n] show ?thesis
    by (auto simp: emit_ipc_eq split: if_splits)
next
  case (Fire k)
  with assms show ?thesis
    by (auto simp: timeout_callback_pending split: if_splits prod.splits)
qed (use assms in \<open>auto simp: app_all_handler_fields startHttpServer_def cleanup_def
       split: if_splits\<close>)

lemma removal_step:
  assumes "inv_core st" "step e st = Some st'"
    "pendingRequests st n = Some c" "pendingRequests st' n = None"
  shows "(\<exists>w response. e = IpcMessage w ''http-response'' response \<and>
            r_request_id response = n \<and> promise (calls st' ! c) = Fulfilled response) \<or>
         (\<exists>k d. e = Fire k \<and> k < length (timers st) \<and> timers st ! k = (d, n, c) \<and>
            d \<le> now st \<and> promise (calls st' ! c) = Rejected timeout_error)"
proof (cases e)
  case (IpcMessage w channel response)
  with assms(2) have st': "st' = emit_ipc (servers st) w channel response st" by simp
  with assms(3,4) have eq: "st' = ipc_message_handler channel response st"
    by (auto simp: emit_ipc_eq split: if_splits)
  with assms(3,4) have ch: "channel = ''http-response''" and n: "r_request_id response = n"
    by (auto simp: ipc_message_handler_def resolve_fields split: if_splits option.splits)
  from inv_tableD [OF assms(1,3)] have c: "c < length (calls st)" by simp
  from ipc_fulfils(1) [OF assms(1,3) n] c
  have "promise (calls st' ! c) = Fulfilled response" by (simp add: eq ch)
  with IpcMessage ch n show ?thesis by simp
next
  case (Fire k)
  with assms(2) have k: "k < length (timers st)" and due: "fst (timers st ! k) \<le> now st"
    by (simp_all split: if_splits)
  obtain d n' c' where t: "timers st ! k = (d, n', c')" by (cases "timers st ! k")
  let ?st0 = "st\<lparr>timers := take k (timers st) @ drop (Suc k) (timers st)\<rparr>"
  from assms(2) Fire k due t have st': "st' = timeout_callback n' c' ?st0" by simp
  with assms(3,4) have n': "n' = n"
    by (auto simp: timeout_callback_pending split: if_splits)
  have "(d, n', c') \<in> set (timers st)" using k t by (metis nth_mem)
  from inv_timersD [OF assms(1) this] inv_tableD [OF assms(1,3)] n'
  have c': "c' = c" and c: "c < length (calls st)" and pe: "promise (calls st ! c) = Pending"
    by simp_all
  have "st' = reject c timeout_error (?st0\<lparr>pendingRequests := (pendingRequests ?st0)(n := None)\<rparr>)"
    using assms(3) by (simp add: st' n' c' timeout_callback_present)
  then have "promise (calls st' ! c) = Rejected timeout_error"
    using c pe by (simp add: reject_pending)
  with Fire k t due n' c' show ?thesis by simp
qed (use assms in \<open>auto simp: app_all_handler_fields startHttpServer_def cleanup_def
       split: if_splits\<close>)

subsection \<open>The concrete states are reachable\<close>

lemma run_reachable: "reachable st \<Longrightarrow> run evs st = Some st' \<Longrightarrow> reachable st'"
proof (induction evs arbitrary: st)
  case Nil
  then show ?case by simp
next
  case (Cons e es)
  then show ?case by (auto split: option.splits intro: reachable_step)
qed

lemma two_servers_fields:
  "servers two_servers = [\<lparr>mainWindow = 0, listening = True\<rparr>, \<lparr>mainWindow = 1, listening = True\<rparr>]"
  "requestIdCounter two_servers = 1" "pendingRequests two_servers = Map.empty"
  "calls two_servers = []" "timers two_servers = []" "sent two_servers = []"
  "replies two_servers = []" "now two_servers = 0"
  by (simp_all add: two_servers_def startHttpServer_def init_state_def)

lemma two_pending_fields:
  "servers two_pending = [\<lparr>mainWindow = 0, listening = True\<rparr>, \<lparr>mainWindow = 1, listening = True\<rparr>]"
  "requestIdCounter two_pending = 3"
  "pendingRequests two_pending = [1 \<mapsto> 0, 2 \<mapsto> 1]"
  "calls two_pending =
     [\<lparr>call_id = 1, call_res = Map.empty, promise = Pending, awaiting = True, deadline = 30000\<rparr>,
      \<lparr>call_id = 2, call_res = Map.empty, promise = Pending, awaiting = True, deadline = 30000\<rparr>]"
  "timers two_pending = [(30000, 1, 0), (30000, 2, 1)]"
  "sent two_pending = [(0, requestEvent reqA 1), (1, requestEvent reqB 2)]"
  "replies two_pending = []" "now two_pending = 0"
  by (simp_all add: two_pending_def app_all_handler_fields two_servers_fields
        numeral_2_eq_2 [symmetric] numeral_3_eq_3 [symmetric])

lemma reachable_two_servers: "reachable two_servers"
proof -
  have "run [Start 0, Start 1] init_state = Some two_servers"
    by (simp add: two_servers_def)
  with reachable_init show ?thesis by (rule run_reachable)
qed

lemma reachable_two_pending: "reachable two_pending"
proof -
  have "run [Request 0 reqA Map.empty SendOk, Request 1 reqB Map.empty SendOk] two_servers =
          Some two_pending"
    by (simp add: two_pending_def two_servers_fields app_all_handler_fields)
  with reachable_two_servers show ?thesis by (rule run_reachable)
qed

subsection \<open>Correlation\<close>

text \<open>
  Claim C1 (correlation). In a reachable state, let an \<open>ipc-message\<close> on the channel
  \<open>http-response\<close> carry \<open>request_id = n\<close> while \<open>pendingRequests\<close> has an entry for
  \<open>n\<close>. The entry is the \<open>resolve\<close> of the invocation whose own \<open>request_id\<close> is \<open>n\<close>,
  and its promise is still pending; the handler fulfils that promise with the event,
  leaves every other invocation and every other entry of the table as it was (however
  many there are), removes the entry for \<open>n\<close>, and the only response written is the one
  of that invocation.
\<close>

theorem response_fulfils_registered_completion:
  assumes "reachable st" and "pendingRequests st n = Some c" and "r_request_id response = n"
  shows "call_id (calls st ! c) = n \<and>
         promise (calls st ! c) = Pending \<and>
         promise (calls (ipc_message_handler ''http-response'' response st) ! c) =
           Fulfilled response \<and>
         (\<forall>c'. c' \<noteq> c \<longrightarrow>
            calls (ipc_message_handler ''http-response'' response st) ! c' = calls st ! c') \<and>
         (\<forall>n'. n' \<noteq> n \<longrightarrow>
            pendingRequests (ipc_message_handler ''http-response'' response st) n' =
              pendingRequests st n') \<and>
         pendingRequests (ipc_message_handler ''http-response'' response st) n = None \<and>
         replies (ipc_message_handler ''http-response'' response st) =
           (if awaiting (calls st ! c)
            then replies st @ [(c, now st, success_reply (call_res (calls st ! c)) response)]
            else replies st)"
proof -
  from assms(1) have core: "inv_core st"
    using reachable_inv by (simp add: bridge_inv_def)
  from inv_tableD [OF core assms(2)]
  have n: "n = Suc c" and c: "c < length (calls st)" and pe: "promise (calls st ! c) = Pending"
    by simp_all
  note f = ipc_fulfils [OF core assms(2,3)]
  have "call_id (calls st ! c) = n" using inv_idsD(2) [OF core c] n by simp
  moreover have "promise (calls (ipc_message_handler ''http-response'' response st) ! c) =
      Fulfilled response"
    using c by (simp add: f)
  ultimately show ?thesis using pe by (simp add: f)
qed

theorem response_fulfils_registered_completion_witness:
  "reachable two_pending \<and> pendingRequests two_pending 2 = Some 1 \<and> r_request_id reply2 = 2 \<and>
   promise (calls (ipc_message_handler ''http-response'' reply2 two_pending) ! 1) =
     Fulfilled reply2 \<and>
   calls (ipc_message_handler ''http-response'' reply2 two_pending) ! 0 = calls two_pending ! 0 \<and>
   pendingRequests (ipc_message_handler ''http-response'' reply2 two_pending) 1 = Some 0"
  using response_fulfils_registered_completion [of two_pending 2 1 reply2] reachable_two_pending
  by (simp add: two_pending_fields reply2_def)

subsection \<open>Removal of entries and the allocator\<close>

lemma one_answered_fields:
  "requestIdCounter one_answered = 3"
  "pendingRequests one_answered = [2 \<mapsto> 1]"
  "timers one_answered = [(30000, 1, 0), (30000, 2, 1)]"
  "now one_answered = 0"
  "replies one_answered = [(0, 0, success_reply Map.empty reply1)]"
  by (simp_all add: one_answered_def ipc_message_handler_def resolve_def two_pending_fields
        reply1_def fun_upd_twist)

lemma reachable_one_answered: "reachable one_answered"
proof -
  have "run [IpcMessage 0 ''http-response'' reply1] two_pending = Some one_answered"
    by (simp add: one_answered_def two_pending_fields)
  with reachable_two_pending show ?thesis by (rule run_reachable)
qed

lemma step_counter_mono: "step e st = Some st' \<Longrightarrow> requestIdCounter st \<le> requestIdCounter st'"
  by (drule step_counter) (simp split: event.splits)

lemma removals_bound:
  "inv_core st \<Longrightarrow>
     removals n evs st \<le> 1 \<and>
     (n < requestIdCounter st \<and> pendingRequests st n = None \<longrightarrow> removals n evs st = 0)"
proof (induction evs arbitrary: st)
  case Nil
  show ?case by simp
next
  case (Cons e es)
  show ?case
  proof (cases "step e st")
    case None
    then show ?thesis by simp
  next
    case (Some st')
    from inv_core_step [OF Cons.prems Some] have inv': "inv_core st'" .
    note IH = Cons.IH [OF inv']
    from step_counter_mono [OF Some] have mono: "requestIdCounter st \<le> requestIdCounter st'" .
    show ?thesis
    proof (cases "pendingRequests st n")
      case None
      show ?thesis
      proof (cases "n < requestIdCounter st")
        case True
        from step_absent_stays [OF Some True None] True mono IH
        show ?thesis using Some None by simp
      next
        case False
        with IH Some None show ?thesis by simp
      qed
    next
      case present: (Some c)
      from inv_tableD [OF Cons.prems present] inv_idsD(1) [OF Cons.prems]
      have lt: "n < requestIdCounter st" by simp
      show ?thesis
      proof (cases "pendingRequests st' n")
        case None
        with IH lt mono Some present show ?thesis by simp
      next
        case still: (Some c')
        with IH Some present show ?thesis by simp
      qed
    qed
  qed
qed

text \<open>
  Claim C2 (an entry is removed once). From a reachable state, along any sequence of
  events, the entry of an identifier \<open>n\<close> leaves the table at most once. Once an issued
  identifier is absent, nothing removes it again and a response event carrying it leaves
  the whole state unchanged. While the entry is present its timer is waiting, and a step
  that removes it is either the \<open>http-response\<close> message for \<open>n\<close>, which fulfils the
  promise, or the due timer of \<open>n\<close>, which rejects it with the timeout error: one or the
  other, since the entry is gone afterwards.
\<close>

theorem pending_entry_removed_once:
  assumes "reachable st"
  shows "removals n evs st \<le> 1 \<and>
         (n < requestIdCounter st \<and> pendingRequests st n = None \<longrightarrow>
            removals n evs st = 0 \<and>
            (\<forall>channel response. r_request_id response = n \<longrightarrow>
               ipc_message_handler channel response st = st)) \<and>
         (\<forall>c. pendingRequests st n = Some c \<longrightarrow>
            n < requestIdCounter st \<and>
            (deadline (calls st ! c), n, c) \<in> set (timers st) \<and>
            (\<forall>e st'. step e st = Some st' \<and> pendingRequests st' n = None \<longrightarrow>
               (\<exists>w response. e = IpcMessage w ''http-response'' response \<and>
                  r_request_id response = n \<and>
                  promise (calls st' ! c) = Fulfilled response) \<or>
               (\<exists>k d. e = Fire k \<and> k < length (timers st) \<and> timers st ! k = (d, n, c) \<and>
                  d \<le> now st \<and> promise (calls st' ! c) = Rejected timeout_error)))"
proof -
  from assms have core: "inv_core st"
    using reachable_inv by (simp add: bridge_inv_def)
  have "removals n evs st \<le> 1"
    and "n < requestIdCounter st \<and> pendingRequests st n = None \<longrightarrow> removals n evs st = 0"
    using removals_bound [OF core] by simp_all
  moreover have "ipc_message_handler channel response st = st"
    if "pendingRequests st n = None" "r_request_id response = n" for channel response
    using that by (simp add: ipc_message_handler_other)
  moreover have "n < requestIdCounter st \<and> (deadline (calls st ! c), n, c) \<in> set (timers st)"
    if "pendingRequests st n = Some c" for c
    using inv_tableD [OF core that] inv_idsD(1) [OF core] by simp
  moreover have
    "(\<exists>w response. e = IpcMessage w ''http-response'' response \<and> r_request_id response = n \<and>
        promise (calls st' ! c) = Fulfilled response) \<or>
     (\<exists>k d. e = Fire k \<and> k < length (timers st) \<and> timers st ! k = (d, n, c) \<and>
        d \<le> now st \<and> promise (calls st' ! c) = Rejected timeout_error)"
    if "pendingRequests st n = Some c" "step e st = Some st'" "pendingRequests st' n = None"
    for c e st'
    using removal_step [OF core that(2,1,3)] .
  ultimately show ?thesis by blast
qed

theorem pending_entry_removed_once_witness:
  "reachable one_answered \<and> 1 < requestIdCounter one_answered \<and>
   pendingRequests one_answered 1 = None \<and>
   removals 1 [IpcMessage 0 ''http-response'' reply1, Tick 30000, Fire 0] one_answered = 0 \<and>
   ipc_message_handler ''http-response'' reply1 one_answered = one_answered \<and>
   reachable two_pending \<and> pendingRequests two_pending 1 = Some 0 \<and>
   removals 1 [IpcMessage 0 ''http-response'' reply1, Tick 30000, Fire 0] two_pending \<le> 1 \<and>
   (deadline (calls two_pending ! 0), 1, 0) \<in> set (timers two_pending)"
  using pending_entry_removed_once [OF reachable_one_answered, of 1
          "[IpcMessage 0 ''http-response'' reply1, Tick 30000, Fire 0]"]
        pending_entry_removed_once [OF reachable_two_pending, of 1
          "[IpcMessage 0 ''http-response'' reply1, Tick 30000, Fire 0]"]
        reachable_one_answered reachable_two_pending
  by (simp add: one_answered_fields two_pending_fields reply1_def)

text \<open>
  Claim C3 (identifier allocator). The counter starts at 1; the catch-all handler takes
  its value as the \<open>request_id\<close> and increments it, whether the send succeeds or throws;
  no other event changes it. Hence in a reachable state the identifiers of the
  invocations, in the order they were accepted, are \<open>1, 2, \<dots>\<close> up to the counter:
  pairwise distinct and strictly increasing.
\<close>

theorem request_ids_distinct_increasing:
  "requestIdCounter init_state = 1 \<and>
   (\<forall>w req hs outcome st.
      requestIdCounter (app_all_handler w req hs outcome st) = requestIdCounter st + 1 \<and>
      call_id (last (calls (app_all_handler w req hs outcome st))) = requestIdCounter st) \<and>
   (\<forall>e st st'. step e st = Some st' \<longrightarrow>
      requestIdCounter st' =
        (case e of Request i req hs outcome \<Rightarrow> requestIdCounter st + 1
         | _ \<Rightarrow> requestIdCounter st)) \<and>
   (\<forall>st. reachable st \<longrightarrow>
      map call_id (calls st) = [1..<requestIdCounter st] \<and>
      distinct (map call_id (calls st)) \<and>
      sorted_wrt (<) (map call_id (calls st)))"
proof -
  have "map call_id (calls st) = [1..<requestIdCounter st]" if "reachable st" for st
  proof -
    from that have core: "inv_core st"
      using reachable_inv by (simp add: bridge_inv_def)
    show ?thesis
    proof (rule nth_equalityI)
      show "length (map call_id (calls st)) = length [1..<requestIdCounter st]"
        unfolding length_upt length_map inv_idsD(1) [OF core] by simp
    next
      fix i
      assume "i < length (map call_id (calls st))"
      then have "i < length (calls st)" by simp
      then show "map call_id (calls st) ! i = [1..<requestIdCounter st] ! i"
        unfolding inv_idsD(1) [OF core] using inv_idsD(2) [OF core] by (simp del: upt_Suc)
    qed
  qed
  moreover have "distinct [1..<k]" "sorted_wrt (<) [1..<k]" for k :: nat
    by (simp_all add: sorted_wrt_upt)
  ultimately show ?thesis
    by (auto simp: init_state_def app_all_handler_fields step_counter)
qed

theorem request_ids_distinct_increasing_witness:
  "step (Request 1 reqB Map.empty (SendThrows ''Error: gone'')) two_pending =
     Some (app_all_handler 1 reqB Map.empty (SendThrows ''Error: gone'') two_pending) \<and>
   requestIdCounter (app_all_handler 1 reqB Map.empty (SendThrows ''Error: gone'') two_pending) = 4 \<and>
   reachable two_pending \<and> map call_id (calls two_pending) = [1, 2] \<and>
   distinct (map call_id (calls two_pending)) \<and>
   sorted_wrt (<) (map call_id (calls two_pending))"
  using request_ids_distinct_increasing reachable_two_pending
  by (simp add: two_pending_fields)

subsection \<open>Registration, teardown and a failed send\<close>

lemma reachable_fresh_id:
  assumes "reachable st"
  shows "pendingRequests st (requestIdCounter st) = None"
proof (cases "pendingRequests st (requestIdCounter st)")
  case None
  then show ?thesis .
next
  case (Some c)
  from assms have core: "inv_core st"
    using reachable_inv by (simp add: bridge_inv_def)
  from inv_tableD [OF core Some] inv_idsD(1) [OF core] show ?thesis by auto
qed

text \<open>
  Claim C4 says that registering an identifier that is present is rejected. In the state
  with the entries \<open>1 \<mapsto> 0\<close> and \<open>2 \<mapsto> 1\<close>, registering identifier 1 for another
  completion (7) is an error for the specification's \<open>register\<close>, but line 126 replaces
  the entry.
\<close>

theorem register_present_counterexample:
  "pendingRequests two_pending 1 = Some 0 \<and>
   spec_register 1 7 (pendingRequests two_pending) = None \<and>
   pendingRequests (register_pending 1 7 two_pending) 1 = Some 7"
  by (simp add: spec_register_def register_pending_def two_pending_fields)

text \<open>
  Claim C4, amended. Registering never fails: it stores the completion under the
  identifier and leaves the other entries alone, so an entry that was present is
  replaced. Where the identifier is absent this is the specification's \<open>register\<close>. The
  handler registers the current value of the counter, which in a reachable state is
  never present.
\<close>

theorem register_pending_replaces:
  "pendingRequests (register_pending rid c st) rid = Some c \<and>
   (\<forall>n. n \<noteq> rid \<longrightarrow>
      pendingRequests (register_pending rid c st) n = pendingRequests st n) \<and>
   (pendingRequests st rid = None \<longrightarrow>
      spec_register rid c (pendingRequests st) =
        Some (pendingRequests (register_pending rid c st))) \<and>
   (reachable st \<longrightarrow> pendingRequests st (requestIdCounter st) = None)"
  by (auto simp: register_pending_def spec_register_def reachable_fresh_id)

theorem register_pending_replaces_witness:
  "reachable two_pending \<and> requestIdCounter two_pending = 3 \<and>
   pendingRequests two_pending 3 = None \<and>
   spec_register 3 2 (pendingRequests two_pending) =
     Some (pendingRequests (register_pending 3 2 two_pending)) \<and>
   pendingRequests (register_pending 3 2 two_pending) 3 = Some 2 \<and>
   pendingRequests (register_pending 3 2 two_pending) 1 = pendingRequests two_pending 1"
  using register_pending_replaces [of 3 2 two_pending] reachable_two_pending
  by (simp add: two_pending_fields)

text \<open>
  Claim C5 says that the teardown fails every pending completion at once. With two
  requests pending at time 0 and the returned function called for both servers, both
  entries are still in the table, both promises are pending, no response has been
  written and both timers are still waiting.
\<close>

theorem cleanup_counterexample:
  "listening (servers all_closed ! 0) = False \<and> listening (servers all_closed ! 1) = False \<and>
   pendingRequests all_closed 1 = Some 0 \<and> pendingRequests all_closed 2 = Some 1 \<and>
   promise (calls all_closed ! 0) = Pending \<and> promise (calls all_closed ! 1) = Pending \<and>
   replies all_closed = [] \<and> timers all_closed = [(30000, 1, 0), (30000, 2, 1)] \<and>
   now all_closed = 0"
  by (simp add: all_closed_def cleanup_def two_pending_fields)

text \<open>
  Claim C5, amended. The teardown function only closes the listener of its server: the
  table, the invocations, the timers and the responses written are what they were. In a
  reachable state every pending entry therefore stays pending, with its own 30-second
  timer still waiting to complete it.
\<close>

theorem cleanup_only_closes_listener:
  "pendingRequests (cleanup i st) = pendingRequests st \<and>
   calls (cleanup i st) = calls st \<and>
   timers (cleanup i st) = timers st \<and>
   replies (cleanup i st) = replies st \<and>
   sent (cleanup i st) = sent st \<and>
   requestIdCounter (cleanup i st) = requestIdCounter st \<and>
   now (cleanup i st) = now st \<and>
   (i < length (servers st) \<longrightarrow> \<not> listening (servers (cleanup i st) ! i)) \<and>
   (reachable st \<longrightarrow>
      (\<forall>n c. pendingRequests st n = Some c \<longrightarrow>
         promise (calls (cleanup i st) ! c) = Pending \<and>
         (deadline (calls st ! c), n, c) \<in> set (timers (cleanup i st))))"
proof -
  have "promise (calls st ! c) = Pending \<and> (deadline (calls st ! c), n, c) \<in> set (timers st)"
    if "reachable st" "pendingRequests st n = Some c" for n c
  proof -
    from that(1) have core: "inv_core st"
      using reachable_inv by (simp add: bridge_inv_def)
    from inv_tableD [OF core that(2)] show ?thesis by simp
  qed
  then show ?thesis by (simp add: cleanup_def)
qed

theorem cleanup_only_closes_listener_witness:
  "0 < length (servers two_pending) \<and> \<not> listening (servers (cleanup 0 two_pending) ! 0) \<and>
   reachable two_pending \<and> pendingRequests two_pending 2 = Some 1 \<and>
   pendingRequests (cleanup 0 two_pending) = pendingRequests two_pending \<and>
   promise (calls (cleanup 0 two_pending) ! 1) = Pending \<and>
   (deadline (calls two_pending ! 1), 2, 1) \<in> set (timers (cleanup 0 two_pending))"
  using cleanup_only_closes_listener [of 0 two_pending] reachable_two_pending
  by (simp add: two_pending_fields)

text \<open>
  Claim C6 says that a failed send cancels the entry just registered. When the first
  request's \<open>webContents.send\<close> throws, the caller is answered with status 500, nothing
  was sent, and the entry for identifier 1 is still in the table with its timer waiting.
\<close>

theorem send_failure_counterexample:
  "replies send_failed = [(0, 0, error_reply Map.empty ''Error: Object has been destroyed'')] \<and>
   reply_status (error_reply Map.empty ''Error: Object has been destroyed'') = 500 \<and>
   pendingRequests send_failed 1 = Some 0 \<and>
   timers send_failed = [(30000, 1, 0)] \<and>
   sent send_failed = []"
  by (simp add: send_failed_def app_all_handler_fields two_servers_fields error_reply_def)

text \<open>
  Claim C6, amended. If the send throws, the caller is answered at once with status 500
  and the body \<open>{"error": String(error)}\<close>, and nothing is sent (no retry). The entry
  just registered stays in the table with its timer. It is removed later, by the timer's
  callback or by a response event carrying its identifier, and neither writes a second
  response to the caller.
\<close>

theorem send_failure_leaves_entry:
  "replies (app_all_handler w req hs (SendThrows err) st) =
     replies st @ [(length (calls st), now st, error_reply hs err)] \<and>
   reply_status (error_reply hs err) = 500 \<and>
   reply_body (error_reply hs err) = JSON_stringify (JObject [(''error'', JString err)]) \<and>
   sent (app_all_handler w req hs (SendThrows err) st) = sent st \<and>
   pendingRequests (app_all_handler w req hs (SendThrows err) st) =
     (pendingRequests st)(requestIdCounter st \<mapsto> length (calls st)) \<and>
   timers (app_all_handler w req hs (SendThrows err) st) =
     timers st @ [(now st + 30000, requestIdCounter st, length (calls st))] \<and>
   pendingRequests (timeout_callback (requestIdCounter st) (length (calls st))
       (app_all_handler w req hs (SendThrows err) st)) (requestIdCounter st) = None \<and>
   replies (timeout_callback (requestIdCounter st) (length (calls st))
       (app_all_handler w req hs (SendThrows err) st)) =
     replies (app_all_handler w req hs (SendThrows err) st) \<and>
   (r_request_id response = requestIdCounter st \<longrightarrow>
      pendingRequests (ipc_message_handler ''http-response'' response
          (app_all_handler w req hs (SendThrows err) st)) (requestIdCounter st) = None \<and>
      replies (ipc_message_handler ''http-response'' response
          (app_all_handler w req hs (SendThrows err) st)) =
        replies (app_all_handler w req hs (SendThrows err) st))"
proof -
  define st' where "st' = app_all_handler w req hs (SendThrows err) st"
  note f = app_all_handler_fields [of w req hs "SendThrows err" st, folded st'_def]
  have p: "pendingRequests st' (requestIdCounter st) = Some (length (calls st))"
    by (simp add: f)
  have c: "length (calls st) < length (calls st')"
    and pe: "promise (calls st' ! length (calls st)) = Pending"
    and na: "\<not> awaiting (calls st' ! length (calls st))"
    by (simp_all add: f)
  have "replies (timeout_callback (requestIdCounter st) (length (calls st)) st') = replies st'"
    using na by (simp add: timeout_callback_present [OF p] reject_pending c pe)
  moreover have "replies (ipc_message_handler ''http-response'' response st') = replies st'"
    if "r_request_id response = requestIdCounter st"
    using that na p by (simp add: ipc_message_handler_match resolve_pending [OF c pe])
  moreover have "pendingRequests (ipc_message_handler ''http-response'' response st')
       (requestIdCounter st) = None"
    if "r_request_id response = requestIdCounter st"
    using that p by (simp add: ipc_message_handler_match)
  ultimately show ?thesis
    unfolding st'_def [symmetric]
    by (simp add: f timeout_callback_pending error_reply_def)
qed

theorem send_failure_leaves_entry_witness:
  "r_request_id reply1 = requestIdCounter two_servers \<and>
   pendingRequests send_failed 1 = Some 0 \<and>
   pendingRequests (ipc_message_handler ''http-response'' reply1 send_failed) 1 = None \<and>
   replies (ipc_message_handler ''http-response'' reply1 send_failed) = replies send_failed \<and>
   pendingRequests (timeout_callback 1 0 send_failed) 1 = None \<and>
   replies (timeout_callback 1 0 send_failed) = replies send_failed"
  using send_failure_leaves_entry [of 0 reqA Map.empty
          "''Error: Object has been destroyed''" two_servers reply1]
  by (simp add: send_failed_def two_servers_fields reply1_def)

subsection \<open>Cross-origin headers\<close>

lemma has_cors_cors_headers: "has_cors (cors_headers hs)"
  by (simp add: has_cors_def cors_headers_def res_header_def)

lemma replies_cors_resolve: "replies_cors st \<Longrightarrow> replies_cors (resolve c v st)"
  by (simp add: replies_cors_def resolve_def success_reply_def has_cors_cors_headers)

lemma replies_cors_reject: "replies_cors st \<Longrightarrow> replies_cors (reject c e st)"
  by (simp add: replies_cors_def reject_def error_reply_def has_cors_cors_headers)

lemma replies_cors_ipc:
  "replies_cors st \<Longrightarrow> replies_cors (ipc_message_handler channel response st)"
  using replies_cors_resolve [of st]
  by (auto simp: ipc_message_handler_def replies_cors_def split: option.splits)

lemma replies_cors_emit:
  "replies_cors st \<Longrightarrow> replies_cors (emit_ipc ss w channel response st)"
  by (simp add: emit_ipc_eq replies_cors_ipc)

lemma replies_cors_timeout:
  "replies_cors st \<Longrightarrow> replies_cors (timeout_callback n c st)"
  using replies_cors_reject [of "st\<lparr>pendingRequests := (pendingRequests st)(n := None)\<rparr>" c]
  by (auto simp: timeout_callback_def replies_cors_def)

lemma replies_cors_request:
  "replies_cors st \<Longrightarrow> replies_cors (app_all_handler w req hs outcome st)"
  by (cases outcome)
     (simp_all add: replies_cors_def app_all_handler_fields error_reply_def has_cors_cors_headers)

lemma replies_cors_step:
  assumes "replies_cors st" "step e st = Some st'"
  shows "replies_cors st'"
proof (cases e)
  case (Request i req hs outcome)
  with assms show ?thesis by (auto simp: replies_cors_request split: if_splits)
next
  case (IpcMessage w channel response)
  with assms show ?thesis by (auto simp: replies_cors_emit)
next
  case (Fire k)
  with assms(2) obtain d n c where
    "st' = timeout_callback n c (st\<lparr>timers := take k (timers st) @ drop (Suc k) (timers st)\<rparr>)"
    by (auto split: if_splits prod.splits)
  moreover have "replies_cors (st\<lparr>timers := take k (timers st) @ drop (Suc k) (timers st)\<rparr>)"
    using assms(1) by (simp add: replies_cors_def)
  ultimately show ?thesis by (simp add: replies_cors_timeout)
qed (use assms in \<open>auto simp: replies_cors_def startHttpServer_def cleanup_def split: if_splits\<close>)

lemma reachable_replies_cors: "reachable st \<Longrightarrow> replies_cors st"
proof (induction rule: reachable.induct)
  case reachable_init
  show ?case by (simp add: replies_cors_def init_state_def)
next
  case (reachable_step st e st')
  then show ?case by (auto intro: replies_cors_step)
qed

text \<open>
  Claim C8 says that the manifest response carries all five cross-origin headers. On a
  response that holds what the \<open>cors\<close> middleware sets (and on an empty one), the
  manifest handler leaves \<open>Access-Control-Allow-Private-Network\<close>,
  \<open>Access-Control-Allow-Headers\<close> and \<open>Access-Control-Allow-Methods\<close> unset.
\<close>

theorem manifest_headers_counterexample:
  "reply_headers (manifest_handler cors_actual_headers) ''Access-Control-Allow-Private-Network'' = None \<and>
   reply_headers (manifest_handler cors_actual_headers) ''Access-Control-Allow-Headers'' = None \<and>
   reply_headers (manifest_handler cors_actual_headers) ''Access-Control-Allow-Methods'' = None \<and>
   reply_headers (manifest_handler Map.empty) ''Access-Control-Allow-Private-Network'' = None \<and>
   \<not> has_cors (reply_headers (manifest_handler cors_actual_headers))"
  by (simp add: manifest_handler_def cors_actual_headers_def res_header_def has_cors_def)

text \<open>
  Claim C8, amended. Whatever the response held before, the response of the \<open>OPTIONS\<close>
  handler and every forwarded response (the renderer's answer or the 500 of the catch
  block; so every response written in a reachable state) carries the five cross-origin
  headers. The manifest handler sets \<open>Access-Control-Allow-Origin: *\<close> and
  \<open>Content-Type: application/json\<close> and leaves every other header as it found it.
\<close>

theorem cors_headers_on_responses:
  "has_cors (reply_headers (options_handler hs)) \<and>
   has_cors (reply_headers (success_reply hs httpResponse)) \<and>
   has_cors (reply_headers (error_reply hs err)) \<and>
   (reachable st \<longrightarrow> (\<forall>x \<in> set (replies st). has_cors (reply_headers (snd (snd x))))) \<and>
   reply_headers (manifest_handler hs) ''Access-Control-Allow-Origin'' = Some ''*'' \<and>
   reply_headers (manifest_handler hs) ''Content-Type'' = Some ''application/json'' \<and>
   (\<forall>name. name \<noteq> ''Access-Control-Allow-Origin'' \<and> name \<noteq> ''Content-Type'' \<longrightarrow>
      reply_headers (manifest_handler hs) name = hs name)"
  using reachable_replies_cors [of st]
  by (simp add: options_handler_def success_reply_def error_reply_def has_cors_cors_headers
        manifest_handler_def res_header_def replies_cors_def)

theorem cors_headers_on_responses_witness:
  "reachable one_answered \<and>
   replies one_answered = [(0, 0, success_reply Map.empty reply1)] \<and>
   has_cors (reply_headers (success_reply Map.empty reply1)) \<and>
   ''Access-Control-Allow-Methods'' \<noteq> ''Access-Control-Allow-Origin'' \<and>
   ''Access-Control-Allow-Methods'' \<noteq> ''Content-Type'' \<and>
   reply_headers (manifest_handler cors_actual_headers) ''Access-Control-Allow-Methods'' =
     cors_actual_headers ''Access-Control-Allow-Methods''"
  using cors_headers_on_responses [of cors_actual_headers reply1 "''e''" one_answered]
        cors_headers_on_responses [of Map.empty reply1 "''e''" one_answered]
        reachable_one_answered
  by (simp add: one_answered_fields)

subsection \<open>The body of the request event\<close>

text \<open>A value that is neither a string nor truthy gives the empty string (line 112).\<close>

lemma body_string_falsy:
  "body_string (Some JNull) = '''' \<and> body_string (Some (JBool False)) = '''' \<and>
   body_string (Some (JNumber 0)) = ''''"
  by simp

lemma body_string_example:
  \<open>body_string (req_body reqB) = ''{"a":1}''\<close>
  by (simp add: reqB_def quote_json_string_def quote_char_def number_to_string_def digits.simps)

text \<open>
  Claim C9 (body coercion). The body of the event is always a string: the empty string
  for an absent body, the body itself if it is a string, and \<open>JSON.stringify\<close> of the
  body if it is an array or an object (and for any other truthy value that is not a
  string).
\<close>

theorem body_coerced_to_string:
  "body_string None = '''' \<and>
   (\<forall>s. body_string (Some (JString s)) = s) \<and>
   (\<forall>xs. body_string (Some (JArray xs)) = JSON_stringify (JArray xs)) \<and>
   (\<forall>kvs. body_string (Some (JObject kvs)) = JSON_stringify (JObject kvs)) \<and>
   (\<forall>v. truthy v \<and> (\<forall>s. v \<noteq> JString s) \<longrightarrow> body_string (Some v) = JSON_stringify v) \<and>
   (\<forall>req rid. body (requestEvent req rid) = body_string (req_body req))"
proof -
  have "body_string (Some v) = JSON_stringify v" if "truthy v" "\<forall>s. v \<noteq> JString s" for v
    using that by (cases v) simp_all
  then show ?thesis by (simp add: requestEvent_def)
qed

theorem body_coerced_to_string_witness:
  \<open>truthy (JObject [(''a'', JNumber 1)]) \<and> (\<forall>s. JObject [(''a'', JNumber 1)] \<noteq> JString s) \<and>
   body (requestEvent reqB 2) = ''{"a":1}'' \<and>
   body (requestEvent reqA 1) = ''''\<close>
proof -
  have "truthy (JObject [(''a'', JNumber 1)])" "\<forall>s. JObject [(''a'', JNumber 1)] \<noteq> JString s"
    by simp_all
  with body_coerced_to_string
  have "body_string (Some (JObject [(''a'', JNumber 1)])) =
          JSON_stringify (JObject [(''a'', JNumber 1)])"
    and "body (requestEvent reqB 2) = body_string (req_body reqB)"
    and "body (requestEvent reqA 1) = body_string (req_body reqA)"
    by blast+
  then show ?thesis
    by (simp add: reqA_def reqB_def quote_json_string_def quote_char_def number_to_string_def
          digits.simps)
qed

subsection \<open>The timeout boundary and several servers\<close>

lemma reachable_late: "reachable late"
proof -
  have "run [Tick 30000] two_pending = Some late"
    by (simp add: late_def two_pending_fields)
  with reachable_two_pending show ?thesis by (rule run_reachable)
qed

lemma timeout_reply_body:
  \<open>reply_body (error_reply hs timeout_error) = ''{"error":"Error: Request timeout"}''\<close>
  by (simp add: error_reply_def timeout_error_def quote_json_string_def quote_char_def)

lemma step_replies_grow:
  assumes "step e st = Some st'"
  shows "\<exists>ys. replies st' = replies st @ ys"
proof (cases e)
  case (Request i req hs outcome)
  with assms show ?thesis
    by (cases outcome) (auto simp: app_all_handler_fields split: if_splits)
next
  case (IpcMessage w channel response)
  with assms show ?thesis
    by (auto simp: emit_ipc_eq ipc_message_handler_def resolve_def split: option.splits)
next
  case (Fire k)
  with assms show ?thesis
    by (auto simp: timeout_callback_def reject_def split: if_splits prod.splits)
qed (use assms in \<open>auto simp: startHttpServer_def cleanup_def split: if_splits\<close>)

lemma step_sent:
  assumes "step e st = Some st'"
  shows "sent st' =
           (case e of
              Request i req hs SendOk \<Rightarrow>
                sent st @ [(mainWindow (servers st ! i), requestEvent req (requestIdCounter st))]
            | _ \<Rightarrow> sent st)"
proof (cases e)
  case (Request i req hs outcome)
  with assms show ?thesis
    by (cases outcome) (auto simp: app_all_handler_fields split: if_splits)
next
  case (IpcMessage w channel response)
  with assms show ?thesis
    by (auto simp: emit_ipc_eq ipc_message_handler_fields)
next
  case (Fire k)
  with assms show ?thesis
    by (auto simp: timeout_callback_def reject_fields split: if_splits prod.splits)
qed (use assms in \<open>auto simp: startHttpServer_def cleanup_def split: if_splits\<close>)

lemma reachable_sent_ids:
  "reachable st \<Longrightarrow>
     distinct (sent_ids st) \<and> (\<forall>n \<in> set (sent_ids st). n < requestIdCounter st)"
proof (induction rule: reachable.induct)
  case reachable_init
  show ?case by (simp add: sent_ids_def init_state_def)
next
  case (reachable_step st e st')
  from step_sent [OF reachable_step.hyps(2)] step_counter [OF reachable_step.hyps(2)]
    reachable_step.IH
  show ?case
    by (cases e; simp add: sent_ids_def requestEvent_def split: send_outcome.splits) force+
qed

lemma late_fields:
  "servers late = servers two_pending" "requestIdCounter late = 3"
  "pendingRequests late = [1 \<mapsto> 0, 2 \<mapsto> 1]"
  "calls late = calls two_pending" "timers late = [(30000, 1, 0), (30000, 2, 1)]"
  "sent late = sent two_pending" "replies late = []" "now late = 30000"
  by (simp_all add: late_def two_pending_fields)

lemma fire_awaiting:
  assumes core: "inv_core st" and c: "c < length (calls st)" and aw: "awaiting (calls st ! c)"
    and k: "k < length (timers st)" and t: "timers st ! k = (d, Suc c, c)"
    and s: "step (Fire k) st = Some st'"
  shows "d = deadline (calls st ! c) \<and> deadline (calls st ! c) \<le> now st \<and>
         replies st' = replies st @ [(c, now st, error_reply (call_res (calls st ! c)) timeout_error)] \<and>
         pendingRequests st' (Suc c) = None"
proof -
  let ?st0 = "st\<lparr>timers := take k (timers st) @ drop (Suc k) (timers st)\<rparr>"
  from s k t have due: "d \<le> now st" and st': "st' = timeout_callback (Suc c) c ?st0"
    by (simp_all split: if_splits)
  have "(d, Suc c, c) \<in> set (timers st)" using k t by (metis nth_mem)
  from inv_timersD [OF core this] have d: "d = deadline (calls st ! c)" by simp
  from inv_awaitD [OF core c aw] have p: "pendingRequests st (Suc c) = Some c" .
  from inv_tableD [OF core p] have pe: "promise (calls st ! c) = Pending" by simp
  have "st' = reject c timeout_error
                (?st0\<lparr>pendingRequests := (pendingRequests ?st0)(Suc c := None)\<rparr>)"
    using p by (simp add: st' timeout_callback_present)
  then have "replies st' =
      replies st @ [(c, now st, error_reply (call_res (calls st ! c)) timeout_error)]"
    using c pe aw by (simp add: reject_pending)
  moreover have "pendingRequests st' (Suc c) = None"
    by (simp add: st' timeout_callback_pending)
  ultimately show ?thesis using d due by simp
qed

text \<open>
  Claim C7 (timeout boundary). Take an invocation whose event was sent, in a reachable
  state.
  \<^item> Before its deadline, unless a response event has fulfilled its promise, the handler
    is still suspended.
  \<^item> While it is suspended nothing has been written to its caller; the response event
    carrying its identifier makes the handler write exactly that event's status and
    body; its timer is waiting, and when the timer's callback runs the deadline has been
    reached, the caller gets status 500 with the timeout error body, and the entry is
    removed.
  \<^item> Once it is no longer suspended, exactly one response has been written: the
    renderer's answer, or the timeout error written at or after the deadline.
  \<^item> Responses are only ever added to the log, the deadline is 30000 ms after the request
    was accepted, and the two responses have the status and body stated.
\<close>

theorem timeout_boundary:
  assumes "reachable st" and "c < length (calls st)"
    and "forwarded st (call_id (calls st ! c))"
  shows
    "(now st < deadline (calls st ! c) \<and> (\<forall>v. promise (calls st ! c) \<noteq> Fulfilled v) \<longrightarrow>
        awaiting (calls st ! c)) \<and>
     (awaiting (calls st ! c) \<longrightarrow>
        replies_of st c = [] \<and>
        (\<forall>response. r_request_id response = call_id (calls st ! c) \<longrightarrow>
           replies_of (ipc_message_handler ''http-response'' response st) c =
             [(now st, success_reply (call_res (calls st ! c)) response)]) \<and>
        (\<exists>k < length (timers st).
           timers st ! k = (deadline (calls st ! c), call_id (calls st ! c), c)) \<and>
        (\<forall>k d st'. k < length (timers st) \<and>
           timers st ! k = (d, call_id (calls st ! c), c) \<and> step (Fire k) st = Some st' \<longrightarrow>
           d = deadline (calls st ! c) \<and> deadline (calls st ! c) \<le> now st \<and>
           replies_of st' c = [(now st, error_reply (call_res (calls st ! c)) timeout_error)] \<and>
           pendingRequests st' (call_id (calls st ! c)) = None)) \<and>
     (\<not> awaiting (calls st ! c) \<longrightarrow>
        (\<exists>t. (\<exists>v. promise (calls st ! c) = Fulfilled v \<and>
                 replies_of st c = [(t, success_reply (call_res (calls st ! c)) v)]) \<or>
              (promise (calls st ! c) = Rejected timeout_error \<and>
               deadline (calls st ! c) \<le> t \<and>
               replies_of st c = [(t, error_reply (call_res (calls st ! c)) timeout_error)]))) \<and>
     (\<forall>e st'. step e st = Some st' \<longrightarrow> (\<exists>ys. replies st' = replies st @ ys)) \<and>
     (\<forall>w req hs outcome st0.
        deadline (last (calls (app_all_handler w req hs outcome st0))) = now st0 + 30000) \<and>
     (\<forall>hs response.
        reply_status (success_reply hs response) = status response \<and>
        reply_body (success_reply hs response) = r_body response) \<and>
     (\<forall>hs. reply_status (error_reply hs timeout_error) = 500 \<and>
        reply_body (error_reply hs timeout_error) =
          JSON_stringify (JObject [(''error'', JString ''Error: Request timeout'')]))"
proof -
  from assms(1) have core: "inv_core st" and log: "inv_log st"
    using reachable_inv by (simp_all add: bridge_inv_def)
  let ?cl = "calls st ! c"
  have id: "call_id ?cl = Suc c" using inv_idsD(2) [OF core assms(2)] .
  with assms(3) have fw: "forwarded st (Suc c)" by simp
  from log assms(2) have cl: "call_log st c" by (simp add: inv_log_def)
  have 1: "awaiting ?cl" if "now st < deadline ?cl" "\<forall>v. promise ?cl \<noteq> Fulfilled v"
    using cl fw that unfolding call_log_def Let_def
    by (cases "promise ?cl") (auto split: if_splits)
  have 2: "replies_of st c = []" if "awaiting ?cl"
    using cl that by (simp add: call_log_def Let_def)
  have 3: "replies_of (ipc_message_handler ''http-response'' response st) c =
             [(now st, success_reply (call_res ?cl) response)]"
    if aw: "awaiting ?cl" and r: "r_request_id response = call_id ?cl" for response
  proof -
    from inv_awaitD [OF core assms(2) aw] have p: "pendingRequests st (Suc c) = Some c" .
    from ipc_fulfils(2) [OF core p] r id aw 2 [OF aw] show ?thesis
      by (simp add: replies_of_def)
  qed
  have 4: "\<exists>k < length (timers st). timers st ! k = (deadline ?cl, call_id ?cl, c)"
    if aw: "awaiting ?cl"
  proof -
    from inv_awaitD [OF core assms(2) aw] have p: "pendingRequests st (Suc c) = Some c" .
    from inv_tableD [OF core p] have "(deadline ?cl, Suc c, c) \<in> set (timers st)" by simp
    then show ?thesis unfolding id in_set_conv_nth by blast
  qed
  have 5: "d = deadline ?cl \<and> deadline ?cl \<le> now st \<and>
           replies_of st' c = [(now st, error_reply (call_res ?cl) timeout_error)] \<and>
           pendingRequests st' (call_id ?cl) = None"
    if aw: "awaiting ?cl" and k: "k < length (timers st)"
      and t: "timers st ! k = (d, call_id ?cl, c)" and s: "step (Fire k) st = Some st'"
    for k d st'
  proof -
    from t id have t': "timers st ! k = (d, Suc c, c)" by simp
    from fire_awaiting [OF core assms(2) aw k t' s] 2 [OF aw] id show ?thesis
      by (simp add: replies_of_def)
  qed
  have 6: "\<exists>t. (\<exists>v. promise ?cl = Fulfilled v \<and>
                   replies_of st c = [(t, success_reply (call_res ?cl) v)]) \<or>
                (promise ?cl = Rejected timeout_error \<and> deadline ?cl \<le> t \<and>
                 replies_of st c = [(t, error_reply (call_res ?cl) timeout_error)])"
    if "\<not> awaiting ?cl"
    using cl fw that unfolding call_log_def Let_def
    by (cases "promise ?cl") auto
  have 7: "\<exists>ys. replies st' = replies st @ ys" if "step e st = Some st'" for e st'
    using that by (rule step_replies_grow)
  have 8: "deadline (last (calls (app_all_handler w req hs outcome st0))) = now st0 + 30000"
    for w req hs outcome st0
    by (simp add: app_all_handler_fields)
  have 9: "reply_status (success_reply hs response) = status response \<and>
           reply_body (success_reply hs response) = r_body response" for hs response
    by (simp add: success_reply_def)
  have 10: "reply_status (error_reply hs timeout_error) = 500 \<and>
            reply_body (error_reply hs timeout_error) =
              JSON_stringify (JObject [(''error'', JString ''Error: Request timeout'')])" for hs
    by (simp add: error_reply_def timeout_error_def)
  from 1 2 3 4 5 6 7 8 9 10 show ?thesis by blast
qed

theorem timeout_boundary_witness:
  "reachable two_pending \<and> 0 < length (calls two_pending) \<and>
   forwarded two_pending (call_id (calls two_pending ! 0)) \<and>
   now two_pending < deadline (calls two_pending ! 0) \<and>
   awaiting (calls two_pending ! 0) \<and>
   r_request_id reply1 = call_id (calls two_pending ! 0) \<and>
   replies_of (ipc_message_handler ''http-response'' reply1 two_pending) 0 =
     [(0, success_reply Map.empty reply1)] \<and>
   reachable late \<and> forwarded late (call_id (calls late ! 0)) \<and>
   awaiting (calls late ! 0) \<and> timers late ! 0 = (30000, 1, 0) \<and>
   step (Fire 0) late = Some timed_out \<and>
   deadline (calls late ! 0) \<le> now late \<and>
   replies_of timed_out 0 = [(30000, error_reply Map.empty timeout_error)] \<and>
   pendingRequests timed_out 1 = None"
proof -
  have a: "0 < length (calls two_pending)"
    "forwarded two_pending (call_id (calls two_pending ! 0))"
    "now two_pending < deadline (calls two_pending ! 0)"
    "awaiting (calls two_pending ! 0)"
    "r_request_id reply1 = call_id (calls two_pending ! 0)"
    by (simp_all add: two_pending_fields forwarded_def requestEvent_def reply1_def)
  have b: "0 < length (calls late)" "forwarded late (call_id (calls late ! 0))"
    "awaiting (calls late ! 0)" "0 < length (timers late)"
    "timers late ! 0 = (30000, call_id (calls late ! 0), 0)"
    "step (Fire 0) late = Some timed_out"
    by (simp_all add: late_fields two_pending_fields forwarded_def requestEvent_def
          timed_out_def)
  from timeout_boundary [OF reachable_two_pending a(1,2)] a(4,5)
  have "replies_of (ipc_message_handler ''http-response'' reply1 two_pending) 0 =
          [(now two_pending, success_reply (call_res (calls two_pending ! 0)) reply1)]"
    by blast
  moreover from timeout_boundary [OF reachable_late b(1,2)] b(3,4,5,6)
  have "deadline (calls late ! 0) \<le> now late \<and>
        replies_of timed_out 0 =
          [(now late, error_reply (call_res (calls late ! 0)) timeout_error)] \<and>
        pendingRequests timed_out (call_id (calls late ! 0)) = None"
    by blast
  ultimately show ?thesis
    using a b reachable_two_pending reachable_late
    by (simp add: two_pending_fields late_fields)
qed

text \<open>
  Claim C10 (one registry for all servers). With servers \<open>i\<close> and \<open>j\<close> started in a
  reachable state, a request accepted by server \<open>i\<close> takes the next value of the one
  counter, which no event sent by any server has carried, so the identifiers of all sent
  events stay distinct; and a response event with that identifier emitted by the window
  of server \<open>j\<close> removes the entry server \<open>i\<close> registered and answers server \<open>i\<close>'s
  caller.
\<close>

theorem registry_shared_between_servers:
  assumes "reachable st" and "i < length (servers st)" and "j < length (servers st)"
  shows
    "step (Request i req hs SendOk) st =
       Some (app_all_handler (mainWindow (servers st ! i)) req hs SendOk st) \<and>
     sent (app_all_handler (mainWindow (servers st ! i)) req hs SendOk st) =
       sent st @ [(mainWindow (servers st ! i), requestEvent req (requestIdCounter st))] \<and>
     requestIdCounter st \<notin> set (sent_ids st) \<and>
     distinct (sent_ids (app_all_handler (mainWindow (servers st ! i)) req hs SendOk st)) \<and>
     (\<forall>response. r_request_id response = requestIdCounter st \<longrightarrow>
        step (IpcMessage (mainWindow (servers st ! j)) ''http-response'' response)
             (app_all_handler (mainWindow (servers st ! i)) req hs SendOk st) =
          Some (ipc_message_handler ''http-response'' response
                  (app_all_handler (mainWindow (servers st ! i)) req hs SendOk st)) \<and>
        pendingRequests (ipc_message_handler ''http-response'' response
             (app_all_handler (mainWindow (servers st ! i)) req hs SendOk st))
           (requestIdCounter st) = None \<and>
        replies (ipc_message_handler ''http-response'' response
             (app_all_handler (mainWindow (servers st ! i)) req hs SendOk st)) =
          replies st @ [(length (calls st), now st, success_reply hs response)])"
proof -
  define st1 where "st1 = app_all_handler (mainWindow (servers st ! i)) req hs SendOk st"
  note f = app_all_handler_fields [of "mainWindow (servers st ! i)" req hs SendOk st,
      folded st1_def]
  have s1: "step (Request i req hs SendOk) st = Some st1"
    using assms(2) by (simp add: st1_def)
  from reachable_step [OF assms(1) s1] have r1: "reachable st1" .
  then have core1: "inv_core st1"
    using reachable_inv by (simp add: bridge_inv_def)
  from reachable_sent_ids [OF assms(1)] have fresh: "requestIdCounter st \<notin> set (sent_ids st)"
    by auto
  from reachable_sent_ids [OF r1] have d1: "distinct (sent_ids st1)" by simp
  have p: "pendingRequests st1 (requestIdCounter st) = Some (length (calls st))"
    by (simp add: f)
  have w: "\<exists>s \<in> set (servers st1). mainWindow s = mainWindow (servers st ! j)"
    using assms(3) by (auto simp: f)
  have "step (IpcMessage (mainWindow (servers st ! j)) ''http-response'' response) st1 =
          Some (ipc_message_handler ''http-response'' response st1) \<and>
        pendingRequests (ipc_message_handler ''http-response'' response st1)
          (requestIdCounter st) = None \<and>
        replies (ipc_message_handler ''http-response'' response st1) =
          replies st @ [(length (calls st), now st, success_reply hs response)]"
    if r: "r_request_id response = requestIdCounter st" for response
    using w ipc_fulfils(2,3) [OF core1 p r]
    by (simp add: emit_ipc_eq f)
  with s1 fresh d1 show ?thesis
    unfolding st1_def [symmetric] by (simp add: f)
qed

theorem registry_shared_between_servers_witness:
  "reachable two_servers \<and> (0::nat) < length (servers two_servers) \<and>
   1 < length (servers two_servers) \<and>
   mainWindow (servers two_servers ! 0) \<noteq> mainWindow (servers two_servers ! 1) \<and>
   r_request_id reply1 = requestIdCounter two_servers \<and>
   step (IpcMessage 1 ''http-response'' reply1)
        (app_all_handler 0 reqA Map.empty SendOk two_servers) =
     Some (ipc_message_handler ''http-response'' reply1
             (app_all_handler 0 reqA Map.empty SendOk two_servers)) \<and>
   replies (ipc_message_handler ''http-response'' reply1
             (app_all_handler 0 reqA Map.empty SendOk two_servers)) =
     [(0, 0, success_reply Map.empty reply1)]"
proof -
  have a: "0 < length (servers two_servers)" "1 < length (servers two_servers)"
    "r_request_id reply1 = requestIdCounter two_servers"
    by (simp_all add: two_servers_fields reply1_def)
  from registry_shared_between_servers [OF reachable_two_servers a(1,2), of reqA Map.empty] a(3)
  have "step (IpcMessage (mainWindow (servers two_servers ! 1)) ''http-response'' reply1)
             (app_all_handler (mainWindow (servers two_servers ! 0)) reqA Map.empty SendOk
                two_servers) =
          Some (ipc_message_handler ''http-response'' reply1
                  (app_all_handler (mainWindow (servers two_servers ! 0)) reqA Map.empty SendOk
                     two_servers)) \<and>
        replies (ipc_message_handler ''http-response'' reply1
             (app_all_handler (mainWindow (servers two_servers ! 0)) reqA Map.empty SendOk
                two_servers)) =
          replies two_servers @
            [(length (calls two_servers), now two_servers, success_reply Map.empty reply1)]"
    by blast
  then show ?thesis
    using a reachable_two_servers by (simp add: two_servers_fields)
qed

end
